theory Spec2Isabelle
  imports Main "HOL-Library.Char_ord" "HOL-Library.List_Lexorder"
begin

section \<open>Configuration constants\<close>

definition CACHE_DURATION :: int where
  "CACHE_DURATION = 300000"

definition CACHE_SOFT_REFRESH :: int where
  "CACHE_SOFT_REFRESH = 60000"

definition BATCH_LIMIT :: nat where
  "BATCH_LIMIT = 450"

section \<open>Values and documents\<close>

text \<open>
  The values the expiry check can produce: \<open>a && b\<close> returns \<open>a\<close> itself when \<open>a\<close> is
  falsy, so the check returns either a boolean or the number it tested. Numbers are epoch
  milliseconds and are modelled as integers (no NaN, no fractions).
\<close>

datatype jsval = JBool bool | JNum int

fun truthy :: "jsval \<Rightarrow> bool" where
  "truthy (JBool b) = b"
| "truthy (JNum n) = (n \<noteq> 0)"

text \<open>
  A time-valued field of a document: missing, \<open>null\<close>, a store timestamp (an object with
  \<open>toMillis\<close>, carrying its epoch milliseconds) or a plain number.
\<close>

datatype timeval = JUndefined | JNull | JTimestamp int | JNumber int

text \<open>
  A string-valued field is \<open>None\<close> when missing; \<open>!field\<close> holds for a missing field and
  for the empty string.
\<close>

definition str_truthy :: "string option \<Rightarrow> bool" where
  "str_truthy v = (case v of None \<Rightarrow> False | Some s \<Rightarrow> s \<noteq> [])"

text \<open>A document of the \<open>keys\<close> collection; its document id is the key string.\<close>

record key_data =
  used :: bool
  alreadyRedeem :: bool
  userId :: "string option"
  usedByDiscord :: "string option"
  hwid :: string
  hwidLimit :: nat
  usedAt :: timeval
  expiresAt :: timeval
  createdAt :: timeval
  whitelisted :: bool

text \<open>A document of the \<open>whitelist\<close> collection; its document id is the user id.\<close>

record whitelist_data =
  wl_userId :: string
  wl_discordTag :: string
  key :: "string option"
  addedBy :: string

record cache_entry =
  keys :: "string list"
  expires :: int
  lastRefresh :: int

section \<open>Deferred writes and store requests\<close>

text \<open>
  The closures pushed on \<open>updateOperations\<close> are \<open>batch.update(ref, updates)\<close>, where
  \<open>updates\<close> is an object built field by field, and \<open>batch.set(ref, data)\<close>.
\<close>

datatype field_upd = SetUserId string | SetUsedByDiscord string | SetWhitelisted bool

datatype write_op = BatchUpdate string "field_upd list" | BatchSet string key_data

datatype store_req =
    KeysWhereUserId string
  | WhitelistGet string
  | KeysWhereUsedByDiscord string
  | KeysGet string
  | BlacklistGet string
  | Commit "write_op list"

datatype error = StoreError store_req

datatype log_msg =
    BatchCommitted nat nat
  | BatchErrorLog
  | KeysLog bool string nat
  | RefreshErrorLog string
  | BgRefreshErrorLog string
  | InteractionErrorLog

text \<open>
  The process state and the store. \<open>keys_coll\<close> lists the \<open>keys\<close> collection in the order
  the store returns documents (by document id); \<open>failing\<close> is the set of requests the store
  rejects; \<open>requests\<close> records every round of requests awaited together, in order.
\<close>

record state =
  keys_coll :: "(string \<times> key_data) list"
  whitelist_coll :: "string \<rightharpoonup> whitelist_data"
  failing :: "store_req list"
  userKeyCache :: "string \<rightharpoonup> cache_entry"
  backgroundRefreshQueue :: "string set"
  requests :: "store_req list list"
  console :: "log_msg list"

section \<open>Batched commit\<close>

text \<open>The loop of \<open>safeBatchCommit\<close>: the state is (batches, currentBatch, count).\<close>

fun fill_batches ::
  "write_op list \<Rightarrow> write_op list list \<times> write_op list \<times> nat
     \<Rightarrow> write_op list list \<times> write_op list \<times> nat" where
  "fill_batches [] st = st"
| "fill_batches (w # operations) (batches, currentBatch, count) =
     (if count + 1 \<ge> BATCH_LIMIT
      then fill_batches operations (batches @ [currentBatch @ [w]], [], 0)
      else fill_batches operations (batches, currentBatch @ [w], count + 1))"

definition make_batches :: "write_op list \<Rightarrow> write_op list list" where
  "make_batches operations =
     (case fill_batches operations ([], [], 0) of
        (batches, currentBatch, count) \<Rightarrow>
          if count > 0 then batches @ [currentBatch] else batches)"

text \<open>
  The effect of a committed write on the \<open>keys\<close> collection. An update changes the
  document it names; the store rejects an update of a missing document, which is one of
  the rejections \<open>failing\<close> stands for. A \<open>set\<close> replaces or creates the document, kept
  in document-id order.
\<close>

fun apply_update :: "field_upd \<Rightarrow> key_data \<Rightarrow> key_data" where
  "apply_update (SetUserId u) d = d\<lparr>userId := Some u\<rparr>"
| "apply_update (SetUsedByDiscord t) d = d\<lparr>usedByDiscord := Some t\<rparr>"
| "apply_update (SetWhitelisted b) d = d\<lparr>whitelisted := b\<rparr>"

fun apply_write :: "write_op \<Rightarrow> (string \<times> key_data) list \<Rightarrow> (string \<times> key_data) list" where
  "apply_write (BatchUpdate k us) coll =
     map (\<lambda>(k', d). if k' = k then (k', fold apply_update us d) else (k', d)) coll"
| "apply_write (BatchSet k d) coll =
     insort_key fst (k, d) (filter (\<lambda>(k', _). k' \<noteq> k) coll)"

text \<open>
  \<open>Promise.all(batches.map(b => b.commit()))\<close>: every batch is sent; a batch the store
  accepts is applied whole, and the call throws when one of them is rejected.
\<close>

definition commit_batch :: "store_req list \<Rightarrow> write_op list \<Rightarrow> state \<Rightarrow> state" where
  "commit_batch rejected b st =
     (if Commit b \<in> set rejected then st
      else st\<lparr>keys_coll := fold apply_write b (keys_coll st)\<rparr>)"

definition safeBatchCommit :: "write_op list \<Rightarrow> state \<Rightarrow> (error + nat) \<times> state" where
  "safeBatchCommit operations s =
     (if operations = [] then (Inr 0, s)
      else
        let batches = make_batches operations;
            s1 = s\<lparr>requests := requests s @ [map Commit batches]\<rparr>;
            s2 = fold (commit_batch (failing s)) batches s1
        in case filter (\<lambda>b. Commit b \<in> set (failing s)) batches of
             [] \<Rightarrow>
               (Inr (length batches),
                s2\<lparr>console := console s2 @ [BatchCommitted (length operations) (length batches)]\<rparr>)
           | b # _ \<Rightarrow>
               (Inl (StoreError (Commit b)), s2\<lparr>console := console s2 @ [BatchErrorLog]\<rparr>))"

section \<open>Expiry check\<close>

text \<open>
  \<open>expiryTime && expiryTime < Date.now()\<close>. The clock is a parameter: \<open>now\<close> stands for
  every \<open>Date.now()\<close> of one call.
\<close>

definition and_before :: "int \<Rightarrow> int \<Rightarrow> jsval" where
  "and_before expiryTime now = (if expiryTime = 0 then JNum expiryTime else JBool (expiryTime < now))"

text \<open>
  \<open>isKeyExpired\<close>; \<open>None\<close> is a falsy \<open>keyData\<close>. \<open>toMillis\<close> of a store timestamp does
  not throw, so the \<open>catch\<close> branch has no case here.
\<close>

fun isKeyExpired :: "key_data option \<Rightarrow> int \<Rightarrow> jsval" where
  "isKeyExpired None now = JBool True"
| "isKeyExpired (Some keyData) now =
     (if whitelisted keyData then JBool False
      else case expiresAt keyData of
             JNull \<Rightarrow> JBool False
           | JUndefined \<Rightarrow> JBool False
           | JTimestamp ms \<Rightarrow> and_before ms now
           | JNumber n \<Rightarrow> and_before n now)"

section \<open>Reading from the store\<close>

text \<open>
  One \<open>await\<close> of requests sent together (\<open>Promise.all\<close> of reads, or a single read):
  all of them are sent, and the await throws when the store rejects one of them.
\<close>

definition await_all :: "store_req list \<Rightarrow> state \<Rightarrow> (error + unit) \<times> state" where
  "await_all reqs s =
     (let s' = s\<lparr>requests := requests s @ [reqs]\<rparr>
      in case filter (\<lambda>r. r \<in> set (failing s)) reqs of
           [] \<Rightarrow> (Inr (), s')
         | r # _ \<Rightarrow> (Inl (StoreError r), s'))"

text \<open>\<open>db.collection('keys').where('userId', '==', userId).get()\<close>\<close>

definition keys_where_userId :: "state \<Rightarrow> string \<Rightarrow> (string \<times> key_data) list" where
  "keys_where_userId s uid = filter (\<lambda>(k, d). userId d = Some uid) (keys_coll s)"

text \<open>\<open>db.collection('keys').where('usedByDiscord', '==', tag).limit(5).get()\<close>\<close>

definition keys_where_usedByDiscord :: "state \<Rightarrow> string \<Rightarrow> (string \<times> key_data) list" where
  "keys_where_usedByDiscord s tag =
     take 5 (filter (\<lambda>(k, d). usedByDiscord d = Some tag) (keys_coll s))"

section \<open>Refreshing the keys of a user\<close>

text \<open>\<open>keys.add(keyId)\<close> on a set that keeps insertion order.\<close>

definition set_add :: "string \<Rightarrow> string list \<Rightarrow> string list" where
  "set_add x xs = (if x \<in> set xs then xs else xs @ [x])"

text \<open>The body of \<open>userIdSnapshot.forEach\<close>, on the pair (keys, updateOperations).\<close>

fun process_userId_doc ::
  "string \<Rightarrow> int \<Rightarrow> string \<times> key_data \<Rightarrow> string list \<times> write_op list
     \<Rightarrow> string list \<times> write_op list" where
  "process_userId_doc discordTag now (keyId, data) (ks, ops) =
     (if \<not> whitelisted data \<and> \<not> truthy (isKeyExpired (Some data) now) then
        (set_add keyId ks,
         if \<not> str_truthy (usedByDiscord data)
         then ops @ [BatchUpdate keyId [SetUsedByDiscord discordTag]] else ops)
      else if whitelisted data \<or> expiresAt data = JNull then (set_add keyId ks, ops)
      else (ks, ops))"

text \<open>The body of the inner \<open>snapshot.forEach\<close> of the fallback by tag.\<close>

fun process_fallback_doc ::
  "string \<Rightarrow> int \<Rightarrow> string \<times> key_data \<Rightarrow> string list \<times> write_op list
     \<Rightarrow> string list \<times> write_op list" where
  "process_fallback_doc uid now (keyId, data) (ks, ops) =
     (if keyId \<in> set ks then (ks, ops)
      else if \<not> truthy (isKeyExpired (Some data) now) then
        (set_add keyId ks,
         if \<not> str_truthy (userId data)
         then ops @ [BatchUpdate keyId [SetUserId uid]] else ops)
      else (ks, ops))"

text \<open>\<open>discordTag.includes('#') ? discordTag.split('#')[0] : discordTag\<close>\<close>

definition username_of :: "string \<Rightarrow> string" where
  "username_of discordTag =
     (if CHR ''#'' \<in> set discordTag then takeWhile (\<lambda>c. c \<noteq> CHR ''#'') discordTag
      else discordTag)"

text \<open>
  The block guarded by \<open>keys.size === 0 && !isBackground\<close>: two more queries awaited
  together, then both snapshots processed in turn.
\<close>

definition fallback_stage ::
  "string \<Rightarrow> string \<Rightarrow> bool \<Rightarrow> int \<Rightarrow> string list \<times> write_op list \<Rightarrow> state
     \<Rightarrow> (error + string list \<times> write_op list) \<times> state" where
  "fallback_stage uid discordTag isBackground now acc s =
     (if fst acc = [] \<and> \<not> isBackground then
        (case await_all [KeysWhereUsedByDiscord discordTag,
                         KeysWhereUsedByDiscord (username_of discordTag)] s of
           (Inl e, s') \<Rightarrow> (Inl e, s')
         | (Inr _, s') \<Rightarrow>
             (Inr (fold (\<lambda>snapshot. fold (process_fallback_doc uid now) snapshot)
                     [keys_where_usedByDiscord s' discordTag,
                      keys_where_usedByDiscord s' (username_of discordTag)] acc), s'))
      else (Inr acc, s))"

text \<open>
  The record written for a whitelist key that has no document. \<open>serverTimestamp()\<close> is
  resolved by the store when the write commits; the model uses the clock of the call.
\<close>

definition whitelist_key_doc :: "string \<Rightarrow> string \<Rightarrow> int \<Rightarrow> key_data" where
  "whitelist_key_doc uid discordTag now =
     \<lparr>used = False, alreadyRedeem = True, userId = Some uid, usedByDiscord = Some discordTag,
      hwid = [], hwidLimit = 1, usedAt = JTimestamp now, expiresAt = JNull,
      createdAt = JTimestamp now, whitelisted = True\<rparr>"

definition whitelist_updates :: "string \<Rightarrow> string \<Rightarrow> key_data \<Rightarrow> field_upd list" where
  "whitelist_updates uid discordTag keyData =
     (if \<not> str_truthy (userId keyData) then [SetUserId uid] else []) @
     (if \<not> str_truthy (usedByDiscord keyData) then [SetUsedByDiscord discordTag] else []) @
     (if \<not> whitelisted keyData then [SetWhitelisted True] else [])"

text \<open>The block \<open>if (whitelistDoc.exists)\<close>; \<open>whitelistDoc\<close> was read in the first round.\<close>

definition whitelist_stage ::
  "string \<Rightarrow> string \<Rightarrow> int \<Rightarrow> whitelist_data option \<Rightarrow> string list \<times> write_op list
     \<Rightarrow> state \<Rightarrow> (error + string list \<times> write_op list) \<times> state" where
  "whitelist_stage uid discordTag now whitelistDoc acc s =
     (case whitelistDoc of
        None \<Rightarrow> (Inr acc, s)
      | Some whitelistData \<Rightarrow>
          (case key whitelistData of
             None \<Rightarrow> (Inr acc, s)
           | Some k \<Rightarrow>
               if k \<noteq> [] \<and> k \<notin> set (fst acc) then
                 (case await_all [KeysGet k] s of
                    (Inl e, s') \<Rightarrow> (Inl e, s')
                  | (Inr _, s') \<Rightarrow>
                      (case map_of (keys_coll s') k of
                         None \<Rightarrow>
                           (Inr (set_add k (fst acc),
                                 snd acc @ [BatchSet k (whitelist_key_doc uid discordTag now)]), s')
                       | Some keyData \<Rightarrow>
                           (Inr (set_add k (fst acc),
                                 if whitelist_updates uid discordTag keyData \<noteq> []
                                 then snd acc @ [BatchUpdate k (whitelist_updates uid discordTag keyData)]
                                 else snd acc), s')))
               else (Inr acc, s)))"

text \<open>
  The \<open>try\<close> block of \<open>refreshUserKeys\<close> up to the commit: it returns the key set and
  the queued operations, or the error of the first rejected read.
\<close>

definition reconcile ::
  "string \<Rightarrow> string \<Rightarrow> bool \<Rightarrow> int \<Rightarrow> state
     \<Rightarrow> (error + string list \<times> write_op list) \<times> state" where
  "reconcile uid discordTag isBackground now s =
     (case await_all [KeysWhereUserId uid, WhitelistGet uid] s of
        (Inl e, s1) \<Rightarrow> (Inl e, s1)
      | (Inr _, s1) \<Rightarrow>
          (case fallback_stage uid discordTag isBackground now
                  (fold (process_userId_doc discordTag now) (keys_where_userId s1 uid) ([], [])) s1 of
             (Inl e, s2) \<Rightarrow> (Inl e, s2)
           | (Inr acc, s2) \<Rightarrow>
               whitelist_stage uid discordTag now (whitelist_coll s2 uid) acc s2))"

definition refreshUserKeys ::
  "string \<Rightarrow> string \<Rightarrow> bool \<Rightarrow> int \<Rightarrow> state \<Rightarrow> (error + string list) \<times> state" where
  "refreshUserKeys uid discordTag isBackground now s =
     (case reconcile uid discordTag isBackground now s of
        (Inl e, s1) \<Rightarrow> (Inl e, s1\<lparr>console := console s1 @ [RefreshErrorLog discordTag]\<rparr>)
      | (Inr (ks, updateOperations), s1) \<Rightarrow>
          (case (if updateOperations \<noteq> [] then safeBatchCommit updateOperations s1
                 else (Inr 0, s1)) of
             (Inl e, s2) \<Rightarrow> (Inl e, s2\<lparr>console := console s2 @ [RefreshErrorLog discordTag]\<rparr>)
           | (Inr _, s2) \<Rightarrow>
               (Inr ks,
                s2\<lparr>console := console s2 @ [KeysLog isBackground discordTag (length ks)],
                   userKeyCache := (userKeyCache s2)(uid \<mapsto>
                     \<lparr>keys = ks, expires = now + CACHE_DURATION, lastRefresh = now\<rparr>)\<rparr>)))"

text \<open>
  \<open>refreshUserKeysBackground\<close>: the marker is tested and set, the refresh runs inside
  \<open>try\<close>/\<open>catch\<close>/\<open>finally\<close>. The result type keeps the error case so that "never
  throws" is a statement about the function.
\<close>

definition refreshUserKeysBackground ::
  "string \<Rightarrow> string \<Rightarrow> int \<Rightarrow> state \<Rightarrow> (error + unit) \<times> state" where
  "refreshUserKeysBackground uid discordTag now s =
     (if uid \<in> backgroundRefreshQueue s then (Inr (), s)
      else
        (case refreshUserKeys uid discordTag True now
                (s\<lparr>backgroundRefreshQueue := insert uid (backgroundRefreshQueue s)\<rparr>) of
           (Inl e, s') \<Rightarrow>
             (Inr (), s'\<lparr>console := console s' @ [BgRefreshErrorLog discordTag],
                         backgroundRefreshQueue := backgroundRefreshQueue s' - {uid}\<rparr>)
         | (Inr _, s') \<Rightarrow>
             (Inr (), s'\<lparr>backgroundRefreshQueue := backgroundRefreshQueue s' - {uid}\<rparr>)))"

text \<open>
  \<open>getUserActiveKeys\<close>. The detached background refresh is run to its end before the
  call returns, which is one of the schedules the runtime allows; its outcome is dropped
  (\<open>.catch(() => { })\<close>).
\<close>

definition getUserActiveKeys ::
  "string \<Rightarrow> string \<Rightarrow> bool \<Rightarrow> int \<Rightarrow> state \<Rightarrow> (error + string list) \<times> state" where
  "getUserActiveKeys uid discordTag forceRefresh now s =
     (if forceRefresh then refreshUserKeys uid discordTag False now s
      else
        (case userKeyCache s uid of
           None \<Rightarrow> refreshUserKeys uid discordTag False now s
         | Some cached \<Rightarrow>
             if expires cached > now then
               (Inr (keys cached),
                if lastRefresh cached \<noteq> 0 \<and> now - lastRefresh cached > CACHE_SOFT_REFRESH
                then snd (refreshUserKeysBackground uid discordTag now s) else s)
             else refreshUserKeys uid discordTag False now s))"

text \<open>The requests sent between two states of one run.\<close>

definition performed :: "state \<Rightarrow> state \<Rightarrow> store_req list" where
  "performed s s' = concat (drop (length (requests s)) (requests s'))"

section \<open>Reply to a redemption of a key that is already bound\<close>

text \<open>
  \<open>activeData.usedByDiscord || activeData.userId || "Unknown"\<close>, and the reply built
  around it. Strings are byte strings; the leading cross mark is its three UTF-8 bytes.
\<close>

definition holder_label :: "key_data \<Rightarrow> string" where
  "holder_label activeData =
     (if str_truthy (usedByDiscord activeData) then the (usedByDiscord activeData)
      else if str_truthy (userId activeData) then the (userId activeData)
      else ''Unknown'')"

definition already_used_reply :: "key_data \<Rightarrow> string" where
  "already_used_reply activeData =
     [CHR 0xE2, CHR 0x9D, CHR 0x8C] @ '' Key sudah dipakai oleh **'' @ holder_label activeData @ ''**!''"

section \<open>The redeem handler up to the check for a bound key\<close>

definition KEY_PREFIX :: string where
  "KEY_PREFIX = ''VORAHUB''"

text \<open>
  \<open>isValidKeyFormat\<close>: the regular expression
  \<open>^VORAHUB-[A-F0-9]{6}-[A-F0-9]{6}-[A-F0-9]{6}$\<close> has only pieces of fixed length, so it
  is matched piece by piece from the left; each step returns the rest of the string.
\<close>

definition match_literal :: "string \<Rightarrow> string \<Rightarrow> string option" where
  "match_literal lit s = (if take (length lit) s = lit then Some (drop (length lit) s) else None)"

definition match_hex6 :: "string \<Rightarrow> string option" where
  "match_hex6 s =
     (if length s \<ge> 6 \<and> list_all (\<lambda>c. c \<in> set ''ABCDEF0123456789'') (take 6 s)
      then Some (drop 6 s) else None)"

definition isValidKeyFormat :: "string \<Rightarrow> bool" where
  "isValidKeyFormat k =
     (case match_literal (KEY_PREFIX @ ''-'') k of None \<Rightarrow> False | Some r1 \<Rightarrow>
      case match_hex6 r1 of None \<Rightarrow> False | Some r2 \<Rightarrow>
      case match_literal ''-'' r2 of None \<Rightarrow> False | Some r3 \<Rightarrow>
      case match_hex6 r3 of None \<Rightarrow> False | Some r4 \<Rightarrow>
      case match_literal ''-'' r4 of None \<Rightarrow> False | Some r5 \<Rightarrow>
      case match_hex6 r5 of None \<Rightarrow> False | Some r6 \<Rightarrow> r6 = [])"

text \<open>
  \<open>.trim().toUpperCase()\<close> on the text of the input field. The text is taken to be ASCII:
  \<open>trim\<close> strips tab, line feed, vertical tab, form feed, carriage return and space from
  both ends, \<open>toUpperCase\<close> maps \<open>a\<close> to \<open>z\<close> and leaves every other byte.
\<close>

definition is_space :: "char \<Rightarrow> bool" where
  "is_space c = (c \<in> set [CHR 0x09, CHR 0x0A, CHR 0x0B, CHR 0x0C, CHR 0x0D, CHR 0x20])"

definition trim :: "string \<Rightarrow> string" where
  "trim s = rev (dropWhile is_space (rev (dropWhile is_space s)))"

definition toUpperCase :: "string \<Rightarrow> string" where
  "toUpperCase s =
     map (\<lambda>c. case map_of (zip ''abcdefghijklmnopqrstuvwxyz'' ''ABCDEFGHIJKLMNOPQRSTUVWXYZ'') c of
                 Some u \<Rightarrow> u | None \<Rightarrow> c) s"

text \<open>A non-negative integer in a template literal: its decimal digits.\<close>

fun show_nat :: "nat \<Rightarrow> string" where
  "show_nat n =
     (if n < 10 then [''0123456789'' ! n]
      else show_nat (n div 10) @ [''0123456789'' ! (n mod 10)])"

text \<open>
  The process state of the handler: the state of the first part (store, key cache, log),
  the cooldown map, the in-flight markers and the \<open>blacklist\<close> collection (the ids that
  have a document).
\<close>

record bot =
  core :: state
  cooldowns :: "string \<rightharpoonup> int"
  activeOperations :: "string \<rightharpoonup> int"
  blacklist_coll :: "string set"

text \<open>
  \<open>checkCooldown\<close>: \<open>Some remaining\<close> is \<open>{ onCooldown: true, remaining }\<close>, \<open>None\<close> is
  \<open>{ onCooldown: false }\<close>. \<open>Math.ceil(x / 1000)\<close> is \<open>- ((- x) div 1000)\<close>.
\<close>

definition checkCooldown :: "bot \<Rightarrow> string \<Rightarrow> int \<Rightarrow> int option" where
  "checkCooldown b uid now =
     (case cooldowns b uid of
        None \<Rightarrow> None
      | Some userCooldown \<Rightarrow>
          if userCooldown \<noteq> 0 \<and> now < userCooldown
          then Some (- ((- (userCooldown - now)) div 1000)) else None)"

definition operation_key :: "string \<Rightarrow> string \<Rightarrow> string" where
  "operation_key uid operationType = uid @ ''-'' @ operationType"

definition startOperation :: "string \<Rightarrow> string \<Rightarrow> int \<Rightarrow> bot \<Rightarrow> bool \<times> bot" where
  "startOperation uid operationType now b =
     (case activeOperations b (operation_key uid operationType) of
        Some _ \<Rightarrow> (False, b)
      | None \<Rightarrow>
          (True, b\<lparr>activeOperations :=
                     (activeOperations b)(operation_key uid operationType \<mapsto> now)\<rparr>))"

definition endOperation :: "string \<Rightarrow> string \<Rightarrow> bot \<Rightarrow> bot" where
  "endOperation uid operationType b =
     b\<lparr>activeOperations := (activeOperations b)(operation_key uid operationType := None)\<rparr>"

text \<open>The fixed replies, as the bytes of their UTF-8 text.\<close>

definition cooldown_reply :: "int \<Rightarrow> string" where
  "cooldown_reply remaining =
     [CHR 0xE2, CHR 0x8F, CHR 0xB0] @ '' Tunggu '' @ show_nat (nat remaining) @
     '' detik sebelum menggunakan fitur ini lagi!''"

definition in_progress_reply :: string where
  "in_progress_reply =
     [CHR 0xE2, CHR 0x9A, CHR 0xA0, CHR 0xEF, CHR 0xB8, CHR 0x8F] @
     '' Kamu sedang melakukan redeem. Tunggu hingga selesai!''"

definition blacklisted_reply :: string where
  "blacklisted_reply =
     [CHR 0xE2, CHR 0x9D, CHR 0x8C] @ '' Kamu di-blacklist dan tidak bisa redeem key!''"

definition bad_format_reply :: string where
  "bad_format_reply =
     [CHR 0xE2, CHR 0x9D, CHR 0x8C] @ '' Format key salah! Harus: '' @ [CHR 0x60] @
     ''VORAHUB-XXXXXX-XXXXXX-XXXXXX'' @ [CHR 0x60]"

definition internal_error_reply :: string where
  "internal_error_reply =
     [CHR 0xE2, CHR 0x9D, CHR 0x8C] @ '' Terjadi error internal. Tim telah diberitahu.''"

text \<open>
  What the handler has done when the model stops: it has sent a reply and returned, or it
  has found the key unbound and goes on, inside its \<open>try\<close> block, to look the key up among
  the pending keys.
\<close>

datatype outcome = Replied string | GoesOn string

text \<open>
  The \<open>try\<close> block of the \<open>redeem_submit\<close> branch, from the blacklist read to the check
  \<open>if (activeDoc.exists)\<close>. A rejected read throws.
\<close>

definition redeem_try :: "string \<Rightarrow> string \<Rightarrow> bot \<Rightarrow> (error + outcome) \<times> bot" where
  "redeem_try uid key_input b =
     (case await_all [BlacklistGet uid] (core b) of
        (Inl e, s1) \<Rightarrow> (Inl e, b\<lparr>core := s1\<rparr>)
      | (Inr _, s1) \<Rightarrow>
          if uid \<in> blacklist_coll b then (Inr (Replied blacklisted_reply), b\<lparr>core := s1\<rparr>)
          else
            let inputKey = toUpperCase (trim key_input) in
            if \<not> isValidKeyFormat inputKey then (Inr (Replied bad_format_reply), b\<lparr>core := s1\<rparr>)
            else
              (case await_all [KeysGet inputKey] s1 of
                 (Inl e, s2) \<Rightarrow> (Inl e, b\<lparr>core := s2\<rparr>)
               | (Inr _, s2) \<Rightarrow>
                   (case map_of (keys_coll s2) inputKey of
                      Some activeData \<Rightarrow>
                        (Inr (Replied (already_used_reply activeData)), b\<lparr>core := s2\<rparr>)
                    | None \<Rightarrow> (Inr (GoesOn inputKey), b\<lparr>core := s2\<rparr>))))"

text \<open>
  The handler for a submitted redeem modal: the cooldown check that comes before every
  button and modal branch, \<open>startOperation\<close>, the \<open>try\<close> block with its
  \<open>finally { endOperation }\<close>, and the \<open>catch\<close> of the whole handler, which logs the error
  and replies with the internal-error text. The reply is the text handed to \<open>safeReply\<close>;
  the calls to the chat platform (\<open>deferReply\<close> and the reply itself) are taken to succeed.
\<close>

definition redeem_submit :: "string \<Rightarrow> string \<Rightarrow> int \<Rightarrow> bot \<Rightarrow> outcome \<times> bot" where
  "redeem_submit uid key_input now b =
     (case checkCooldown b uid now of
        Some remaining \<Rightarrow> (Replied (cooldown_reply remaining), b)
      | None \<Rightarrow>
          (case startOperation uid ''redeem'' now b of
             (False, b1) \<Rightarrow> (Replied in_progress_reply, b1)
           | (True, b1) \<Rightarrow>
               (case redeem_try uid key_input b1 of
                  (Inr (Replied reply), b2) \<Rightarrow> (Replied reply, endOperation uid ''redeem'' b2)
                | (Inr (GoesOn inputKey), b2) \<Rightarrow> (GoesOn inputKey, b2)
                | (Inl e, b2) \<Rightarrow>
                    (Replied internal_error_reply,
                     (endOperation uid ''redeem'' b2)
                       \<lparr>core := (core b2)\<lparr>console := console (core b2) @ [InteractionErrorLog]\<rparr>\<rparr>))))"

section \<open>Auxiliary notions for the proofs\<close>

text \<open>
  The outcome of awaiting the requests \<open>reqs\<close>: success means none of them is rejected, an
  error is the rejection of one of them.
\<close>

definition outcome_ok :: "state \<Rightarrow> store_req list \<Rightarrow> error + 'a \<Rightarrow> bool" where
  "outcome_ok s reqs r =
     (case r of
        Inr _ \<Rightarrow> \<forall>q \<in> set reqs. q \<notin> set (failing s)
      | Inl e \<Rightarrow> \<exists>q \<in> set reqs. q \<in> set (failing s) \<and> e = StoreError q)"

text \<open>A stage only appends rounds of requests, and fails exactly when one is rejected.\<close>

definition stage_ok :: "state \<Rightarrow> error + 'a \<Rightarrow> state \<Rightarrow> bool" where
  "stage_ok s r s' =
     (\<exists>rounds. s' = s\<lparr>requests := requests s @ rounds\<rparr> \<and> outcome_ok s (concat rounds) r)"

text \<open>
  The key set and the queued operations of a refresh whose reads all succeed, as functions
  of the store: the fallback block, the whitelist block, and the three blocks in sequence.
\<close>

definition fallback_acc ::
  "string \<Rightarrow> string \<Rightarrow> bool \<Rightarrow> int \<Rightarrow> state \<Rightarrow> string list \<times> write_op list
     \<Rightarrow> string list \<times> write_op list" where
  "fallback_acc uid discordTag isBackground now s acc =
     (if fst acc = [] \<and> \<not> isBackground then
        fold (process_fallback_doc uid now) (keys_where_usedByDiscord s (username_of discordTag))
          (fold (process_fallback_doc uid now) (keys_where_usedByDiscord s discordTag) acc)
      else acc)"

definition whitelist_acc ::
  "string \<Rightarrow> string \<Rightarrow> int \<Rightarrow> state \<Rightarrow> string list \<times> write_op list
     \<Rightarrow> string list \<times> write_op list" where
  "whitelist_acc uid discordTag now s acc =
     (case whitelist_coll s uid of
        None \<Rightarrow> acc
      | Some whitelistData \<Rightarrow>
          (case key whitelistData of
             None \<Rightarrow> acc
           | Some k \<Rightarrow>
               if k \<noteq> [] \<and> k \<notin> set (fst acc) then
                 (set_add k (fst acc),
                  case map_of (keys_coll s) k of
                    None \<Rightarrow> snd acc @ [BatchSet k (whitelist_key_doc uid discordTag now)]
                  | Some keyData \<Rightarrow>
                      if whitelist_updates uid discordTag keyData \<noteq> []
                      then snd acc @ [BatchUpdate k (whitelist_updates uid discordTag keyData)]
                      else snd acc)
               else acc))"

definition reconcile_acc ::
  "string \<Rightarrow> string \<Rightarrow> bool \<Rightarrow> int \<Rightarrow> state \<Rightarrow> string list \<times> write_op list" where
  "reconcile_acc uid discordTag isBackground now s =
     whitelist_acc uid discordTag now s
       (fallback_acc uid discordTag isBackground now s
          (fold (process_userId_doc discordTag now) (keys_where_userId s uid) ([], [])))"

section \<open>Example states\<close>

definition s0 :: state where
  "s0 = \<lparr>keys_coll = [], whitelist_coll = Map.empty, failing = [], userKeyCache = Map.empty,
         backgroundRefreshQueue = {}, requests = [], console = []\<rparr>"

definition kd0 :: key_data where
  "kd0 = \<lparr>used = False, alreadyRedeem = True, userId = Some ''u'', usedByDiscord = Some ''t'',
          hwid = [], hwidLimit = 1, usedAt = JTimestamp 5, expiresAt = JNull,
          createdAt = JTimestamp 5, whitelisted = False\<rparr>"

definition s_rejecting :: state where
  "s_rejecting = s0\<lparr>failing := [WhitelistGet ''u''],
       userKeyCache := [''u'' \<mapsto> \<lparr>keys = [''K''], expires = 5, lastRefresh = 1\<rparr>]\<rparr>"

definition s_cached :: state where
  "s_cached = s0\<lparr>userKeyCache := [''u'' \<mapsto> \<lparr>keys = [''K''], expires = 300010, lastRefresh = 10\<rparr>]\<rparr>"

definition kd_nolabel :: key_data where
  "kd_nolabel = kd0\<lparr>usedByDiscord := None, userId := Some ''1234''\<rparr>"

definition s_zero :: state where
  "s_zero = s0\<lparr>keys_coll := [(''K0'', kd0\<lparr>expiresAt := JTimestamp 0\<rparr>)]\<rparr>"

definition s_linked :: state where
  "s_linked = s0\<lparr>keys_coll := [(''K1'', kd0\<lparr>expiresAt := JTimestamp 3\<rparr>)],
       whitelist_coll := [''u'' \<mapsto>
         \<lparr>wl_userId = ''u'', wl_discordTag = ''t'', key = Some ''K1'', addedBy = ''a''\<rparr>]\<rparr>"

definition s_mixed :: state where
  "s_mixed = s0\<lparr>keys_coll :=
       [(''KE'', kd0\<lparr>expiresAt := JTimestamp 3\<rparr>),
        (''KW'', kd0\<lparr>expiresAt := JTimestamp 3, whitelisted := True\<rparr>)]\<rparr>"

definition s_two :: state where
  "s_two = s0\<lparr>keys_coll := [(''K1'', kd0), (''K2'', kd0\<lparr>userId := None\<rparr>)]\<rparr>"

definition s_alias :: state where
  "s_alias = s0\<lparr>keys_coll := [(''K2'', kd0\<lparr>userId := None\<rparr>)]\<rparr>"

definition s_grant :: state where
  "s_grant = s0\<lparr>whitelist_coll := [''u'' \<mapsto>
         \<lparr>wl_userId = ''u'', wl_discordTag = ''t'', key = Some ''KW'', addedBy = ''a''\<rparr>]\<rparr>"

definition b0 :: bot where
  "b0 = \<lparr>core = s0, cooldowns = Map.empty, activeOperations = Map.empty, blacklist_coll = {}\<rparr>"

definition key1 :: string where
  "key1 = ''VORAHUB-ABCDEF-123456-789012''"

definition b_bound :: "key_data \<Rightarrow> bot" where
  "b_bound d = b0\<lparr>core := s0\<lparr>keys_coll := [(key1, d)]\<rparr>\<rparr>"

section \<open>The batches of \<open>safeBatchCommit\<close>\<close>

lemma fill_batches_short:
  "length ops + cnt < BATCH_LIMIT \<Longrightarrow>
   fill_batches ops (bs, cur, cnt) = (bs, cur @ ops, cnt + length ops)"
  by (induction ops arbitrary: cur cnt) auto

lemma fill_batches_full:
  "cnt < BATCH_LIMIT \<Longrightarrow> BATCH_LIMIT \<le> length ops + cnt \<Longrightarrow>
   fill_batches ops (bs, cur, cnt) =
     fill_batches (drop (BATCH_LIMIT - cnt) ops) (bs @ [cur @ take (BATCH_LIMIT - cnt) ops], [], 0)"
proof (induction ops arbitrary: cur cnt)
  case Nil
  then show ?case by simp
next
  case (Cons w ops)
  show ?case
  proof (cases "BATCH_LIMIT \<le> cnt + 1")
    case True
    with Cons.prems have "BATCH_LIMIT - cnt = 1" by simp
    with True show ?thesis by simp
  next
    case False
    then have "BATCH_LIMIT - cnt = Suc (BATCH_LIMIT - (cnt + 1))" by simp
    moreover have "fill_batches ops (bs, cur @ [w], cnt + 1) =
       fill_batches (drop (BATCH_LIMIT - (cnt + 1)) ops)
         (bs @ [(cur @ [w]) @ take (BATCH_LIMIT - (cnt + 1)) ops], [], 0)"
      using False Cons.prems by (intro Cons.IH) auto
    ultimately show ?thesis using False by simp
  qed
qed

lemma fill_batches_inv:
  "fill_batches ops (bs, cur, cnt) = (bs', cur', cnt') \<Longrightarrow> cnt = length cur \<Longrightarrow>
   cnt' = length cur' \<and> concat bs' @ cur' = concat bs @ cur @ ops"
proof (induction ops arbitrary: bs cur cnt)
  case Nil
  then show ?case by auto
next
  case (Cons w ops)
  show ?case
  proof (cases "BATCH_LIMIT \<le> cnt + 1")
    case True
    with Cons.prems have "fill_batches ops (bs @ [cur @ [w]], [], 0) = (bs', cur', cnt')" by simp
    from Cons.IH[OF this] show ?thesis by simp
  next
    case False
    with Cons.prems have "fill_batches ops (bs, cur @ [w], cnt + 1) = (bs', cur', cnt')" by simp
    from Cons.IH[OF this] Cons.prems show ?thesis by simp
  qed
qed

lemma concat_make_batches: "concat (make_batches ops) = ops"
proof -
  obtain bs cur cnt where f: "fill_batches ops ([], [], 0) = (bs, cur, cnt)"
    by (cases "fill_batches ops ([], [], 0)") auto
  from fill_batches_inv[OF f] have "cnt = length cur" "concat bs @ cur = ops" by auto
  then show ?thesis using f by (auto simp: make_batches_def)
qed

lemma make_batches_1000:
  assumes "length ops = 1000"
  shows "make_batches ops = [take 450 ops, take 450 (drop 450 ops), drop 900 ops]"
proof -
  have 1: "fill_batches ops ([], [], 0) = fill_batches (drop 450 ops) ([take 450 ops], [], 0)"
    using fill_batches_full[of 0 ops "[]" "[]"] assms by (simp add: BATCH_LIMIT_def)
  have 2: "fill_batches (drop 450 ops) ([take 450 ops], [], 0) =
           fill_batches (drop 900 ops) ([take 450 ops, take 450 (drop 450 ops)], [], 0)"
    using fill_batches_full[of 0 "drop 450 ops" "[take 450 ops]" "[]"] assms
    by (simp add: BATCH_LIMIT_def)
  have 3: "fill_batches (drop 900 ops) ([take 450 ops, take 450 (drop 450 ops)], [], 0) =
           ([take 450 ops, take 450 (drop 450 ops)], drop 900 ops, 100)"
    using fill_batches_short[of "drop 900 ops" 0 "[take 450 ops, take 450 (drop 450 ops)]" "[]"] assms
    by (simp add: BATCH_LIMIT_def)
  show ?thesis by (simp add: make_batches_def 1 2 3)
qed

lemma fold_commit_batch_frame:
  "requests (fold (commit_batch rej) bs st) = requests st \<and>
   console (fold (commit_batch rej) bs st) = console st \<and>
   failing (fold (commit_batch rej) bs st) = failing st \<and>
   userKeyCache (fold (commit_batch rej) bs st) = userKeyCache st \<and>
   whitelist_coll (fold (commit_batch rej) bs st) = whitelist_coll st \<and>
   backgroundRefreshQueue (fold (commit_batch rej) bs st) = backgroundRefreshQueue st"
  by (induction bs arbitrary: st) (auto simp: commit_batch_def)


text \<open>
  Claim C7. A list of 1000 operations is committed in exactly three batches, of 450, 450
  and 100 operations in the order given; when the store accepts them the call returns 3 and
  logs 1000 operations in 3 batches. An empty list returns 0 and sends nothing.
\<close>

theorem safeBatchCommit_chunks:
  "(length operations = 1000 \<longrightarrow>
      map length (make_batches operations) = [450, 450, 100] \<and>
      concat (make_batches operations) = operations \<and>
      requests (snd (safeBatchCommit operations s)) = requests s @ [map Commit (make_batches operations)] \<and>
      ((\<forall>b \<in> set (make_batches operations). Commit b \<notin> set (failing s)) \<longrightarrow>
         fst (safeBatchCommit operations s) = Inr 3 \<and>
         console (snd (safeBatchCommit operations s)) = console s @ [BatchCommitted 1000 3])) \<and>
   safeBatchCommit [] s = (Inr 0, s)"
proof -
  have e: "safeBatchCommit [] s = (Inr 0, s)" by (simp add: safeBatchCommit_def)
  {
    assume len: "length operations = 1000"
    then have ne: "operations \<noteq> []" by auto
    have mb: "make_batches operations =
       [take 450 operations, take 450 (drop 450 operations), drop 900 operations]"
      by (rule make_batches_1000[OF len])
    have sizes: "map length (make_batches operations) = [450, 450, 100]"
      using len by (simp add: mb)
    have nb: "length (make_batches operations) = 3" by (simp add: mb)
    have rq: "requests (snd (safeBatchCommit operations s)) =
        requests s @ [map Commit (make_batches operations)]"
      using ne by (simp add: safeBatchCommit_def Let_def fold_commit_batch_frame split: list.splits)
    have ok: "(\<forall>b \<in> set (make_batches operations). Commit b \<notin> set (failing s)) \<longrightarrow>
         fst (safeBatchCommit operations s) = Inr 3 \<and>
         console (snd (safeBatchCommit operations s)) = console s @ [BatchCommitted 1000 3]"
    proof
      assume a: "\<forall>b \<in> set (make_batches operations). Commit b \<notin> set (failing s)"
      then have "filter (\<lambda>b. Commit b \<in> set (failing s)) (make_batches operations) = []"
        by (simp add: filter_empty_conv)
      then show "fst (safeBatchCommit operations s) = Inr 3 \<and>
         console (snd (safeBatchCommit operations s)) = console s @ [BatchCommitted 1000 3]"
        using ne nb len by (simp add: safeBatchCommit_def Let_def fold_commit_batch_frame)
    qed
    note sizes concat_make_batches[of operations] rq ok
  }
  with e show ?thesis by blast
qed


theorem safeBatchCommit_chunks_witness:
  "length (replicate 1000 (BatchUpdate ''K'' [SetWhitelisted True])) = 1000 \<and>
   map length (make_batches (replicate 1000 (BatchUpdate ''K'' [SetWhitelisted True]))) = [450, 450, 100] \<and>
   fst (safeBatchCommit (replicate 1000 (BatchUpdate ''K'' [SetWhitelisted True])) s0) = Inr 3 \<and>
   console (snd (safeBatchCommit (replicate 1000 (BatchUpdate ''K'' [SetWhitelisted True])) s0)) =
     [BatchCommitted 1000 3]"
  using safeBatchCommit_chunks[of "replicate 1000 (BatchUpdate ''K'' [SetWhitelisted True])" s0]
  by (simp add: s0_def)

section \<open>Reads: what a stage does to the state\<close>

lemma outcome_ok_filter:
  "outcome_ok s reqs (case filter (\<lambda>r. r \<in> set (failing s)) reqs of
                        [] \<Rightarrow> Inr x | r # _ \<Rightarrow> Inl (StoreError r))"
proof (cases "filter (\<lambda>r. r \<in> set (failing s)) reqs")
  case Nil
  then show ?thesis by (simp add: outcome_ok_def filter_empty_conv)
next
  case (Cons r rs)
  have "r \<in> set (filter (\<lambda>r. r \<in> set (failing s)) reqs)" unfolding Cons by simp
  then have "r \<in> set reqs \<and> r \<in> set (failing s)" by simp
  then show ?thesis unfolding Cons by (auto simp: outcome_ok_def)
qed

lemma await_all_fst:
  "fst (await_all reqs s) = (case filter (\<lambda>r. r \<in> set (failing s)) reqs of
               [] \<Rightarrow> Inr () | r # _ \<Rightarrow> Inl (StoreError r))"
  by (simp add: await_all_def Let_def split: list.splits)

lemma await_all_snd: "snd (await_all reqs s) = s\<lparr>requests := requests s @ [reqs]\<rparr>"
  by (simp add: await_all_def Let_def split: list.splits)

lemma await_all_spec:
  assumes "await_all reqs s = (r, s')"
  shows "s' = s\<lparr>requests := requests s @ [reqs]\<rparr> \<and> outcome_ok s reqs r"
proof -
  have "r = fst (await_all reqs s)" "s' = snd (await_all reqs s)" using assms by simp_all
  then show ?thesis using outcome_ok_filter[of s reqs "()"]
    by (simp only: await_all_fst await_all_snd simp_thms)
qed

lemma outcome_ok_kind:
  "outcome_ok s a r1 \<Longrightarrow> (\<And>e. r1 = Inl e \<Longrightarrow> r = Inl e) \<Longrightarrow>
   (\<And>x. r1 = Inr x \<Longrightarrow> \<exists>y. r = Inr y) \<Longrightarrow> outcome_ok s a r"
  by (cases r1) (auto simp: outcome_ok_def)

lemma outcome_ok_Inr_append:
  "outcome_ok s a (Inr x) \<Longrightarrow> outcome_ok s b r \<Longrightarrow> outcome_ok s (a @ b) r"
  by (cases r) (auto simp: outcome_ok_def)

lemma outcome_ok_Nil: "outcome_ok s [] (Inr x)"
  by (simp add: outcome_ok_def)

lemma outcome_ok_failing_cong:
  "failing s1 = failing s \<Longrightarrow> outcome_ok s1 a r \<Longrightarrow> outcome_ok s a r"
  by (cases r) (simp_all add: outcome_ok_def)

lemma stage_ok_skip: "stage_ok s (Inr x) s"
proof -
  have "s = s\<lparr>requests := requests s @ []\<rparr> \<and> outcome_ok s (concat []) (Inr x)"
    by (simp add: outcome_ok_Nil)
  then show ?thesis unfolding stage_ok_def by blast
qed

lemma stage_ok_await:
  assumes "await_all reqs s = (r1, s')"
    and "\<And>e. r1 = Inl e \<Longrightarrow> r = Inl e" and "\<And>x. r1 = Inr x \<Longrightarrow> \<exists>y. r = Inr y"
  shows "stage_ok s r s'"
proof -
  from await_all_spec[OF assms(1)] have e: "s' = s\<lparr>requests := requests s @ [reqs]\<rparr>"
    and o: "outcome_ok s reqs r1" by blast+
  have "outcome_ok s reqs r" using o assms(2,3) by (rule outcome_ok_kind)
  then have "s' = s\<lparr>requests := requests s @ [reqs]\<rparr> \<and> outcome_ok s (concat [reqs]) r"
    using e by simp
  then show ?thesis unfolding stage_ok_def by blast
qed

lemma stage_okE:
  assumes "stage_ok s r s'"
  obtains rounds where "s' = s\<lparr>requests := requests s @ rounds\<rparr>" "outcome_ok s (concat rounds) r"
  using assms unfolding stage_ok_def by (elim exE conjE)

lemma stage_ok_failing: "stage_ok s r s' \<Longrightarrow> failing s' = failing s"
  unfolding stage_ok_def by auto

lemma stage_ok_seq:
  assumes "stage_ok s (Inr x) s1" and "stage_ok s1 r s2"
  shows "stage_ok s r s2"
proof -
  from assms(1) obtain ra where a: "s1 = s\<lparr>requests := requests s @ ra\<rparr>"
    and oa: "outcome_ok s (concat ra) (Inr x)" unfolding stage_ok_def by blast
  from assms(2) obtain rb where b: "s2 = s1\<lparr>requests := requests s1 @ rb\<rparr>"
    and ob: "outcome_ok s1 (concat rb) r" unfolding stage_ok_def by blast
  have "failing s1 = failing s" using a by simp
  then have ob': "outcome_ok s (concat rb) r" using ob by (rule outcome_ok_failing_cong)
  have c: "outcome_ok s (concat (ra @ rb)) r"
    using outcome_ok_Inr_append[OF oa ob'] by simp
  have d: "s2 = s\<lparr>requests := requests s @ (ra @ rb)\<rparr>"
    unfolding b a by simp
  show ?thesis unfolding stage_ok_def
    by (rule exI[of _ "ra @ rb"]) (rule conjI[OF d c])
qed

lemma stage_ok_fail_first:
  assumes "stage_ok s (Inl e :: error + 'a) s1"
  shows "stage_ok s (Inl e :: error + 'b) s1"
proof -
  from assms obtain ra where a: "s1 = s\<lparr>requests := requests s @ ra\<rparr>"
    and oa: "outcome_ok s (concat ra) (Inl e :: error + 'a)" unfolding stage_ok_def by blast
  have "outcome_ok s (concat ra) (Inl e :: error + 'b)" using oa by (simp add: outcome_ok_def)
  with a show ?thesis unfolding stage_ok_def by blast
qed


lemma fallback_stage_ok:
  assumes "fallback_stage uid tag bg now acc s = (r, s')"
  shows "stage_ok s r s'"
proof (cases "fst acc = [] \<and> \<not> bg")
  case False
  with assms have "r = Inr acc" "s' = s" by (auto simp: fallback_stage_def)
  then show ?thesis by (simp add: stage_ok_skip)
next
  case True
  let ?q = "[KeysWhereUsedByDiscord tag, KeysWhereUsedByDiscord (username_of tag)]"
  obtain r1 s1 where a: "await_all ?q s = (r1, s1)" by (cases "await_all ?q s") auto
  have "s' = s1" using assms True a by (auto simp: fallback_stage_def split: sum.splits)
  moreover have "\<And>e. r1 = Inl e \<Longrightarrow> r = Inl e"
    using assms True a by (auto simp: fallback_stage_def)
  moreover have "\<And>x. r1 = Inr x \<Longrightarrow> \<exists>y. r = Inr y"
    using assms True a by (auto simp: fallback_stage_def)
  ultimately show ?thesis using stage_ok_await[OF a, of r] by blast
qed

lemma whitelist_stage_ok:
  assumes "whitelist_stage uid tag now wd acc s = (r, s')"
  shows "stage_ok s r s'"
proof (cases "\<exists>w k. wd = Some w \<and> key w = Some k \<and> k \<noteq> [] \<and> k \<notin> set (fst acc)")
  case False
  with assms have "r = Inr acc" "s' = s"
    by (auto simp: whitelist_stage_def split: option.splits if_splits)
  then show ?thesis by (simp add: stage_ok_skip)
next
  case True
  then obtain w k where w: "wd = Some w" "key w = Some k" "k \<noteq> []" "k \<notin> set (fst acc)" by blast
  obtain r1 s1 where a: "await_all [KeysGet k] s = (r1, s1)"
    by (cases "await_all [KeysGet k] s") auto
  have "s' = s1" using assms w a
    by (auto simp: whitelist_stage_def split: sum.splits option.splits)
  moreover have "\<And>e. r1 = Inl e \<Longrightarrow> r = Inl e"
    using assms w a by (auto simp: whitelist_stage_def)
  moreover have "\<And>x. r1 = Inr x \<Longrightarrow> \<exists>y. r = Inr y"
    using assms w a by (auto simp: whitelist_stage_def split: option.splits)
  ultimately show ?thesis using stage_ok_await[OF a, of r] by blast
qed

lemma reconcile_ok:
  assumes "reconcile uid tag bg now s = (r, s')"
  shows "stage_ok s r s'"
proof -
  let ?q1 = "[KeysWhereUserId uid, WhitelistGet uid]"
  obtain r1 s1 where a: "await_all ?q1 s = (r1, s1)" by (cases "await_all ?q1 s") auto
  show ?thesis
  proof (cases r1)
    case (Inl e)
    with assms a have "r = Inl e" "s' = s1" by (auto simp: reconcile_def)
    then show ?thesis using stage_ok_await[OF a, of r] Inl by simp
  next
    case (Inr u)
    have st1: "stage_ok s (Inr u) s1" using stage_ok_await[OF a, of "Inr u"] Inr by simp
    let ?acc = "fold (process_userId_doc tag now) (keys_where_userId s1 uid) ([], [])"
    obtain r2 s2 where b: "fallback_stage uid tag bg now ?acc s1 = (r2, s2)"
      by (cases "fallback_stage uid tag bg now ?acc s1") auto
    note st2 = fallback_stage_ok[OF b]
    show ?thesis
    proof (cases r2)
      case (Inl e)
      with assms a b Inr have "r = Inl e" "s' = s2" by (auto simp: reconcile_def)
      then show ?thesis using stage_ok_seq[OF st1 stage_ok_fail_first] st2 Inl by simp
    next
      case (Inr acc)
      with assms a b \<open>r1 = Inr u\<close>
      have c: "whitelist_stage uid tag now (whitelist_coll s2 uid) acc s2 = (r, s')"
        by (auto simp: reconcile_def)
      have st12: "stage_ok s (Inr acc) s2" using stage_ok_seq[OF st1 st2] Inr by simp
      show ?thesis by (rule stage_ok_seq[OF st12 whitelist_stage_ok[OF c]])
    qed
  qed
qed

section \<open>Commit and refresh: frame and failure\<close>

lemma fold_commit_batch_requests [simp]: "requests (fold (commit_batch rej) bs st) = requests st"
  by (simp add: fold_commit_batch_frame)
lemma fold_commit_batch_console [simp]: "console (fold (commit_batch rej) bs st) = console st"
  by (simp add: fold_commit_batch_frame)
lemma fold_commit_batch_failing [simp]: "failing (fold (commit_batch rej) bs st) = failing st"
  by (simp add: fold_commit_batch_frame)
lemma fold_commit_batch_cache [simp]: "userKeyCache (fold (commit_batch rej) bs st) = userKeyCache st"
  by (simp add: fold_commit_batch_frame)
lemma fold_commit_batch_wl [simp]: "whitelist_coll (fold (commit_batch rej) bs st) = whitelist_coll st"
  by (simp add: fold_commit_batch_frame)
lemma fold_commit_batch_bgq [simp]:
  "backgroundRefreshQueue (fold (commit_batch rej) bs st) = backgroundRefreshQueue st"
  by (simp add: fold_commit_batch_frame)

lemma safeBatchCommit_spec:
  assumes "safeBatchCommit ops s = (r, s')"
  shows "failing s' = failing s \<and> userKeyCache s' = userKeyCache s \<and>
         whitelist_coll s' = whitelist_coll s \<and>
         backgroundRefreshQueue s' = backgroundRefreshQueue s \<and>
         (\<exists>rounds. requests s' = requests s @ rounds \<and> outcome_ok s (concat rounds) r)"
proof (cases "ops = []")
  case True
  with assms have "r = Inr 0" "s' = s" by (simp_all add: safeBatchCommit_def)
  moreover have "requests s = requests s @ [] \<and> outcome_ok s (concat []) (Inr 0 :: error + nat)"
    by (simp add: outcome_ok_Nil)
  ultimately show ?thesis by blast
next
  case False
  let ?bs = "make_batches ops"
  let ?f = "filter (\<lambda>b. Commit b \<in> set (failing s)) ?bs"
  have frame: "failing s' = failing s \<and> userKeyCache s' = userKeyCache s \<and>
         whitelist_coll s' = whitelist_coll s \<and>
         backgroundRefreshQueue s' = backgroundRefreshQueue s \<and>
         requests s' = requests s @ [map Commit ?bs]"
    using assms False by (auto simp: safeBatchCommit_def Let_def split: list.splits)
  have r: "r = (case ?f of [] \<Rightarrow> Inr (length ?bs) | b # _ \<Rightarrow> Inl (StoreError (Commit b)))"
    using assms False by (auto simp: safeBatchCommit_def Let_def split: list.splits)
  have "outcome_ok s (map Commit ?bs) r"
  proof (cases ?f)
    case Nil
    then show ?thesis unfolding r by (auto simp: outcome_ok_def filter_empty_conv)
  next
    case (Cons b bs')
    have "b \<in> set ?f" unfolding Cons by simp
    then have "b \<in> set ?bs \<and> Commit b \<in> set (failing s)" by simp
    then show ?thesis unfolding r Cons by (auto simp: outcome_ok_def)
  qed
  then have "requests s' = requests s @ [map Commit ?bs] \<and> outcome_ok s (concat [map Commit ?bs]) r"
    using frame by simp
  then have "\<exists>rounds. requests s' = requests s @ rounds \<and> outcome_ok s (concat rounds) r"
    by blast
  then show ?thesis using frame by simp
qed

text \<open>What one refresh does to the state, and when it fails.\<close>

lemma refreshUserKeys_spec:
  assumes "refreshUserKeys uid tag bg now s = (r, s')"
  shows "failing s' = failing s \<and> whitelist_coll s' = whitelist_coll s \<and>
         backgroundRefreshQueue s' = backgroundRefreshQueue s \<and>
         (\<exists>rounds. requests s' = requests s @ rounds \<and> outcome_ok s (concat rounds) r) \<and>
         userKeyCache s' =
           (case r of Inl e \<Rightarrow> userKeyCache s
            | Inr ks \<Rightarrow> (userKeyCache s)(uid \<mapsto>
                \<lparr>keys = ks, expires = now + CACHE_DURATION, lastRefresh = now\<rparr>))"
proof -
  obtain r1 s1 where a: "reconcile uid tag bg now s = (r1, s1)"
    by (cases "reconcile uid tag bg now s") auto
  from reconcile_ok[OF a] obtain ra where s1: "s1 = s\<lparr>requests := requests s @ ra\<rparr>"
    and oa: "outcome_ok s (concat ra) r1" by (rule stage_okE)
  show ?thesis
  proof (cases r1)
    case (Inl e)
    with assms a have r: "r = Inl e" and s': "s' = s1\<lparr>console := console s1 @ [RefreshErrorLog tag]\<rparr>"
      by (auto simp: refreshUserKeys_def)
    have "outcome_ok s (concat ra) r" using oa Inl r by (simp add: outcome_ok_def)
    moreover have "requests s' = requests s @ ra" using s' s1 by simp
    ultimately have "\<exists>rounds. requests s' = requests s @ rounds \<and> outcome_ok s (concat rounds) r"
      by blast
    then show ?thesis using s' s1 r by simp
  next
    case (Inr p)
    obtain ks ops where p: "p = (ks, ops)" by (cases p) auto
    let ?c = "if ops \<noteq> [] then safeBatchCommit ops s1 else (Inr 0, s1)"
    obtain r2 s2 where b: "?c = (r2, s2)" by (cases ?c) auto
    have sp2: "failing s2 = failing s1 \<and> userKeyCache s2 = userKeyCache s1 \<and>
         whitelist_coll s2 = whitelist_coll s1 \<and>
         backgroundRefreshQueue s2 = backgroundRefreshQueue s1 \<and>
         (\<exists>rounds. requests s2 = requests s1 @ rounds \<and> outcome_ok s1 (concat rounds) r2)"
    proof (cases "ops = []")
      case True
      with b have "r2 = Inr 0" "s2 = s1" by simp_all
      moreover have "requests s1 = requests s1 @ [] \<and> outcome_ok s1 (concat []) (Inr 0 :: error + nat)"
        by (simp add: outcome_ok_Nil)
      ultimately show ?thesis by blast
    next
      case False
      with b have "safeBatchCommit ops s1 = (r2, s2)" by simp
      then show ?thesis by (rule safeBatchCommit_spec)
    qed
    then obtain rb where rb: "requests s2 = requests s1 @ rb" and ob: "outcome_ok s1 (concat rb) r2"
      by blast
    have f1: "failing s1 = failing s" using s1 by simp
    have ob': "outcome_ok s (concat rb) r2" using f1 ob by (rule outcome_ok_failing_cong)
    have oa': "outcome_ok s (concat ra) (Inr p)" using oa Inr by simp
    have oab: "outcome_ok s (concat (ra @ rb)) r2"
      using outcome_ok_Inr_append[OF oa' ob'] by simp
    have rq: "requests s2 = requests s @ (ra @ rb)" using rb s1 by simp
    have fr: "failing s2 = failing s \<and> userKeyCache s2 = userKeyCache s \<and>
         whitelist_coll s2 = whitelist_coll s \<and>
         backgroundRefreshQueue s2 = backgroundRefreshQueue s"
      using sp2 s1 by simp
    show ?thesis
    proof (cases r2)
      case (Inl e)
      with assms a b \<open>r1 = Inr p\<close> p
      have r: "r = Inl e" and s': "s' = s2\<lparr>console := console s2 @ [RefreshErrorLog tag]\<rparr>"
        by (auto simp: refreshUserKeys_def)
      have "outcome_ok s (concat (ra @ rb)) r" using oab Inl r by (simp add: outcome_ok_def)
      moreover have "requests s' = requests s @ (ra @ rb)" using s' rq by simp
      ultimately have "\<exists>rounds. requests s' = requests s @ rounds \<and> outcome_ok s (concat rounds) r"
        by blast
      then show ?thesis using s' fr r by simp
    next
      case (Inr n)
      with assms a b \<open>r1 = Inr p\<close> p
      have r: "r = Inr ks" and s': "s' = s2\<lparr>console := console s2 @ [KeysLog bg tag (length ks)],
                   userKeyCache := (userKeyCache s2)(uid \<mapsto>
                     \<lparr>keys = ks, expires = now + CACHE_DURATION, lastRefresh = now\<rparr>)\<rparr>"
        by (auto simp: refreshUserKeys_def)
      have "outcome_ok s (concat (ra @ rb)) r" using oab Inr r by (simp add: outcome_ok_def)
      moreover have "requests s' = requests s @ (ra @ rb)" using s' rq by simp
      ultimately have "\<exists>rounds. requests s' = requests s @ rounds \<and> outcome_ok s (concat rounds) r"
        by blast
      then show ?thesis using s' fr r by simp
    qed
  qed
qed

lemma performed_append: "requests s' = requests s @ rounds \<Longrightarrow> performed s s' = concat rounds"
  by (simp add: performed_def)


text \<open>
  Claim C5. If the store rejects any request sent during a synchronous refresh, the call
  returns the error of a rejected request and the key cache is what it was before the call.
\<close>

theorem refresh_failure_keeps_cache:
  assumes "\<exists>q \<in> set (performed s (snd (refreshUserKeys uid discordTag False now s))).
             q \<in> set (failing s)"
  shows "(\<exists>q \<in> set (performed s (snd (refreshUserKeys uid discordTag False now s))).
            q \<in> set (failing s) \<and>
            fst (refreshUserKeys uid discordTag False now s) = Inl (StoreError q)) \<and>
         userKeyCache (snd (refreshUserKeys uid discordTag False now s)) = userKeyCache s"
proof -
  let ?r = "fst (refreshUserKeys uid discordTag False now s)"
  let ?s' = "snd (refreshUserKeys uid discordTag False now s)"
  have "refreshUserKeys uid discordTag False now s = (?r, ?s')" by simp
  from refreshUserKeys_spec[OF this] obtain rounds where
    rq: "requests ?s' = requests s @ rounds" and o: "outcome_ok s (concat rounds) ?r"
    and c: "userKeyCache ?s' =
           (case ?r of Inl e \<Rightarrow> userKeyCache s
            | Inr ks \<Rightarrow> (userKeyCache s)(uid \<mapsto>
                \<lparr>keys = ks, expires = now + CACHE_DURATION, lastRefresh = now\<rparr>))"
    by blast
  have p: "performed s ?s' = concat rounds" using rq by (rule performed_append)
  show ?thesis
  proof (cases ?r)
    case (Inl e)
    then show ?thesis using o c p by (auto simp: outcome_ok_def)
  next
    case (Inr ks)
    then have "\<forall>q \<in> set (performed s ?s'). q \<notin> set (failing s)"
      using o p by (simp add: outcome_ok_def)
    with assms show ?thesis by blast
  qed
qed

theorem refresh_failure_keeps_cache_witness:
  "WhitelistGet ''u'' \<in> set (performed s_rejecting (snd (refreshUserKeys ''u'' ''t'' False 10 s_rejecting))) \<and>
   WhitelistGet ''u'' \<in> set (failing s_rejecting) \<and>
   fst (refreshUserKeys ''u'' ''t'' False 10 s_rejecting) = Inl (StoreError (WhitelistGet ''u'')) \<and>
   userKeyCache (snd (refreshUserKeys ''u'' ''t'' False 10 s_rejecting)) ''u'' =
     Some \<lparr>keys = [''K''], expires = 5, lastRefresh = 1\<rparr>"
proof -
  have p: "performed s_rejecting (snd (refreshUserKeys ''u'' ''t'' False 10 s_rejecting)) =
           [KeysWhereUserId ''u'', WhitelistGet ''u'']"
    by (simp add: performed_def s_rejecting_def s0_def refreshUserKeys_def reconcile_def
        await_all_def)
  have f: "failing s_rejecting = [WhitelistGet ''u'']" by (simp add: s_rejecting_def s0_def)
  have h: "\<exists>q \<in> set (performed s_rejecting (snd (refreshUserKeys ''u'' ''t'' False 10 s_rejecting))).
             q \<in> set (failing s_rejecting)"
    by (simp add: p f)
  have c: "userKeyCache s_rejecting ''u'' = Some \<lparr>keys = [''K''], expires = 5, lastRefresh = 1\<rparr>"
    by (simp add: s_rejecting_def s0_def)
  show ?thesis
    using refresh_failure_keeps_cache[OF h] by (simp add: p f c)
qed

section \<open>Cache hits and the background refresh\<close>

text \<open>
  Claim C4. With a cache entry that is not hard-expired and was refreshed within the soft
  window at both calls, two consecutive calls without \<open>forceRefresh\<close> return the same
  cached keys, leave the state as it was, and send at most one request to the store (in
  fact none).
\<close>

theorem cached_calls_agree:
  assumes "userKeyCache s uid = Some c"
    and "expires c > now1" and "now1 - lastRefresh c \<le> CACHE_SOFT_REFRESH"
    and "expires c > now2" and "now2 - lastRefresh c \<le> CACHE_SOFT_REFRESH"
  shows "getUserActiveKeys uid discordTag False now1 s = (Inr (keys c), s) \<and>
         getUserActiveKeys uid discordTag False now2
             (snd (getUserActiveKeys uid discordTag False now1 s)) = (Inr (keys c), s) \<and>
         length (performed s (snd (getUserActiveKeys uid discordTag False now2
             (snd (getUserActiveKeys uid discordTag False now1 s))))) \<le> 1"
proof -
  have 1: "getUserActiveKeys uid discordTag False now1 s = (Inr (keys c), s)"
    using assms(1,2,3) by (simp add: getUserActiveKeys_def)
  have 2: "getUserActiveKeys uid discordTag False now2 s = (Inr (keys c), s)"
    using assms(1,4,5) by (simp add: getUserActiveKeys_def)
  show ?thesis by (simp add: 1 2 performed_def)
qed

theorem cached_calls_agree_witness:
  "userKeyCache s_cached ''u'' = Some \<lparr>keys = [''K''], expires = 300010, lastRefresh = 10\<rparr> \<and>
   getUserActiveKeys ''u'' ''t'' False 20 s_cached = (Inr [''K''], s_cached) \<and>
   getUserActiveKeys ''u'' ''t'' False 30
       (snd (getUserActiveKeys ''u'' ''t'' False 20 s_cached)) = (Inr [''K''], s_cached) \<and>
   length (performed s_cached (snd (getUserActiveKeys ''u'' ''t'' False 30
       (snd (getUserActiveKeys ''u'' ''t'' False 20 s_cached))))) \<le> 1"
proof -
  have c: "userKeyCache s_cached ''u'' = Some \<lparr>keys = [''K''], expires = 300010, lastRefresh = 10\<rparr>"
    by (simp add: s_cached_def s0_def)
  have "expires \<lparr>keys = [''K''], expires = 300010, lastRefresh = 10\<rparr> > (20::int)"
    and "20 - lastRefresh \<lparr>keys = [''K''], expires = 300010, lastRefresh = 10\<rparr> \<le> CACHE_SOFT_REFRESH"
    and "expires \<lparr>keys = [''K''], expires = 300010, lastRefresh = 10\<rparr> > (30::int)"
    and "30 - lastRefresh \<lparr>keys = [''K''], expires = 300010, lastRefresh = 10\<rparr> \<le> CACHE_SOFT_REFRESH"
    by (simp_all add: CACHE_SOFT_REFRESH_def)
  note t = cached_calls_agree[OF c this, of "''t''", unfolded cache_entry.select_convs]
  show ?thesis by (rule conjI[OF c t])
qed


text \<open>
  Claim C6. A background refresh never returns an error, whatever the store rejects; when it
  starts (marker not set) the marker is removed again at its end, on success and on
  failure alike; when the marker is already set it returns at once and leaves the state,
  and so the request log, untouched. The caller that spawned it on a cache hit gets the
  cached keys.
\<close>

theorem background_refresh_contained:
  "fst (refreshUserKeysBackground uid discordTag now s) = Inr () \<and>
   (uid \<notin> backgroundRefreshQueue s \<longrightarrow>
      uid \<notin> backgroundRefreshQueue (snd (refreshUserKeysBackground uid discordTag now s)) \<and>
      backgroundRefreshQueue (snd (refreshUserKeysBackground uid discordTag now s)) =
        backgroundRefreshQueue s) \<and>
   (uid \<in> backgroundRefreshQueue s \<longrightarrow>
      refreshUserKeysBackground uid discordTag now s = (Inr (), s)) \<and>
   (\<forall>c. userKeyCache s uid = Some c \<and> expires c > now \<longrightarrow>
      fst (getUserActiveKeys uid discordTag False now s) = Inr (keys c))"
proof -
  let ?s1 = "s\<lparr>backgroundRefreshQueue := insert uid (backgroundRefreshQueue s)\<rparr>"
  obtain r s' where a: "refreshUserKeys uid discordTag True now ?s1 = (r, s')"
    by (cases "refreshUserKeys uid discordTag True now ?s1") auto
  from refreshUserKeys_spec[OF a]
  have q: "backgroundRefreshQueue s' = insert uid (backgroundRefreshQueue s)" by simp
  have 1: "fst (refreshUserKeysBackground uid discordTag now s) = Inr ()"
    using a by (cases r) (simp_all add: refreshUserKeysBackground_def)
  have 2: "uid \<notin> backgroundRefreshQueue s \<longrightarrow>
      uid \<notin> backgroundRefreshQueue (snd (refreshUserKeysBackground uid discordTag now s)) \<and>
      backgroundRefreshQueue (snd (refreshUserKeysBackground uid discordTag now s)) =
        backgroundRefreshQueue s"
    using a q by (cases r) (simp_all add: refreshUserKeysBackground_def)
  have 3: "uid \<in> backgroundRefreshQueue s \<longrightarrow>
      refreshUserKeysBackground uid discordTag now s = (Inr (), s)"
    by (simp add: refreshUserKeysBackground_def)
  have 4: "\<forall>c. userKeyCache s uid = Some c \<and> expires c > now \<longrightarrow>
      fst (getUserActiveKeys uid discordTag False now s) = Inr (keys c)"
    by (simp add: getUserActiveKeys_def)
  show ?thesis using 1 2 3 4 by blast
qed

theorem background_refresh_contained_witness:
  "refreshUserKeysBackground ''u'' ''t'' 10 (s_rejecting\<lparr>backgroundRefreshQueue := {''u''}\<rparr>) =
     (Inr (), s_rejecting\<lparr>backgroundRefreshQueue := {''u''}\<rparr>) \<and>
   fst (refreshUserKeys ''u'' ''t'' True 10 s_rejecting) = Inl (StoreError (WhitelistGet ''u'')) \<and>
   fst (refreshUserKeysBackground ''u'' ''t'' 10 s_rejecting) = Inr () \<and>
   backgroundRefreshQueue (snd (refreshUserKeysBackground ''u'' ''t'' 10 s_rejecting)) = {} \<and>
   fst (getUserActiveKeys ''u'' ''t'' False 3 s_rejecting) = Inr [''K'']"
proof -
  have 1: "''u'' \<in> backgroundRefreshQueue (s_rejecting\<lparr>backgroundRefreshQueue := {''u''}\<rparr>)"
    by simp
  have 2: "''u'' \<notin> backgroundRefreshQueue s_rejecting" by (simp add: s_rejecting_def s0_def)
  have 3: "userKeyCache s_rejecting ''u'' = Some \<lparr>keys = [''K''], expires = 5, lastRefresh = 1\<rparr>"
    by (simp add: s_rejecting_def s0_def)
  have 4: "fst (refreshUserKeys ''u'' ''t'' True 10 s_rejecting) = Inl (StoreError (WhitelistGet ''u''))"
    by (simp add: s_rejecting_def s0_def refreshUserKeys_def reconcile_def await_all_def)
  have 5: "backgroundRefreshQueue s_rejecting = {}" by (simp add: s_rejecting_def s0_def)
  show ?thesis
    using background_refresh_contained[of "''u''" "''t''" 10 "s_rejecting\<lparr>backgroundRefreshQueue := {''u''}\<rparr>"]
      background_refresh_contained[of "''u''" "''t''" 10 s_rejecting]
      background_refresh_contained[of "''u''" "''t''" 3 s_rejecting] 1 2 3 4 5
    by simp
qed

section \<open>The reply for a key that is already bound\<close>

lemma isValidKeyFormat_examples:
  "isValidKeyFormat ''VORAHUB-ABCDEF-123456-789012'' \<and>
   \<not> isValidKeyFormat ''VORAHUB-abcdef-123456-789012'' \<and>
   \<not> isValidKeyFormat ''VORAHUB-12345-123456-789012'' \<and>
   \<not> isValidKeyFormat ''K''"
  by (simp add: isValidKeyFormat_def match_literal_def match_hex6_def KEY_PREFIX_def)

lemmas handler_defs = redeem_submit_def redeem_try_def checkCooldown_def startOperation_def
  endOperation_def operation_key_def await_all_def isValidKeyFormat_def match_literal_def
  match_hex6_def KEY_PREFIX_def trim_def toUpperCase_def is_space_def Let_def

lemma await_all_single:
  "q \<notin> set (failing s) \<Longrightarrow> await_all [q] s = (Inr (), s\<lparr>requests := requests s @ [[q]]\<rparr>)"
  by (simp add: await_all_def)

lemma await_all_single_rejected:
  "q \<in> set (failing s) \<Longrightarrow>
   await_all [q] s = (Inl (StoreError q), s\<lparr>requests := requests s @ [[q]]\<rparr>)"
  by (simp add: await_all_def)

lemma redeem_try_bound:
  assumes "uid \<notin> blacklist_coll b" and "BlacklistGet uid \<notin> set (failing (core b))"
    and "isValidKeyFormat (toUpperCase (trim key_input))"
    and "KeysGet (toUpperCase (trim key_input)) \<notin> set (failing (core b))"
    and "map_of (keys_coll (core b)) (toUpperCase (trim key_input)) = Some activeData"
  shows "redeem_try uid key_input b =
           (Inr (Replied (already_used_reply activeData)),
            b\<lparr>core := (core b)\<lparr>requests := requests (core b) @
                   [[BlacklistGet uid], [KeysGet (toUpperCase (trim key_input))]]\<rparr>\<rparr>)"
  using assms by (simp add: redeem_try_def await_all_single Let_def)

lemma startOperation_free:
  "fst (startOperation uid operationType now b) \<Longrightarrow>
   startOperation uid operationType now b =
     (True, b\<lparr>activeOperations := (activeOperations b)(operation_key uid operationType \<mapsto> now)\<rparr>)"
  by (simp add: startOperation_def split: option.splits)

lemma redeem_submit_bound:
  assumes "checkCooldown b uid now = None"
    and "fst (startOperation uid ''redeem'' now b)"
    and "uid \<notin> blacklist_coll b" and "BlacklistGet uid \<notin> set (failing (core b))"
    and "isValidKeyFormat (toUpperCase (trim key_input))"
    and "KeysGet (toUpperCase (trim key_input)) \<notin> set (failing (core b))"
    and "map_of (keys_coll (core b)) (toUpperCase (trim key_input)) = Some activeData"
  shows "fst (redeem_submit uid key_input now b) = Replied (already_used_reply activeData)"
    and "activeOperations (snd (redeem_submit uid key_input now b)) (operation_key uid ''redeem'') = None"
proof -
  let ?b1 = "b\<lparr>activeOperations := (activeOperations b)(operation_key uid ''redeem'' \<mapsto> now)\<rparr>"
  have s: "startOperation uid ''redeem'' now b = (True, ?b1)"
    using assms(2) by (rule startOperation_free)
  have t: "redeem_try uid key_input ?b1 =
           (Inr (Replied (already_used_reply activeData)),
            ?b1\<lparr>core := (core ?b1)\<lparr>requests := requests (core ?b1) @
                   [[BlacklistGet uid], [KeysGet (toUpperCase (trim key_input))]]\<rparr>\<rparr>)"
    using assms(3-7) by (intro redeem_try_bound) simp_all
  show "fst (redeem_submit uid key_input now b) = Replied (already_used_reply activeData)"
    by (simp add: redeem_submit_def assms(1) s t)
  show "activeOperations (snd (redeem_submit uid key_input now b)) (operation_key uid ''redeem'') = None"
    by (simp add: redeem_submit_def assms(1) s t endOperation_def)
qed

text \<open>
  The guards reply first: a caller on cooldown, with a redeem in flight or on the blacklist,
  an input that has not the key format, or a rejected read never gets the reply that names
  a holder.
\<close>

lemma redeem_submit_guards:
  "(\<forall>remaining. checkCooldown b uid now = Some remaining \<longrightarrow>
      fst (redeem_submit uid key_input now b) = Replied (cooldown_reply remaining)) \<and>
   (checkCooldown b uid now = None \<and> \<not> fst (startOperation uid ''redeem'' now b) \<longrightarrow>
      fst (redeem_submit uid key_input now b) = Replied in_progress_reply) \<and>
   (checkCooldown b uid now = None \<and> fst (startOperation uid ''redeem'' now b) \<and>
    BlacklistGet uid \<in> set (failing (core b)) \<longrightarrow>
      fst (redeem_submit uid key_input now b) = Replied internal_error_reply) \<and>
   (checkCooldown b uid now = None \<and> fst (startOperation uid ''redeem'' now b) \<and>
    BlacklistGet uid \<notin> set (failing (core b)) \<and> uid \<in> blacklist_coll b \<longrightarrow>
      fst (redeem_submit uid key_input now b) = Replied blacklisted_reply) \<and>
   (checkCooldown b uid now = None \<and> fst (startOperation uid ''redeem'' now b) \<and>
    BlacklistGet uid \<notin> set (failing (core b)) \<and> uid \<notin> blacklist_coll b \<and>
    \<not> isValidKeyFormat (toUpperCase (trim key_input)) \<longrightarrow>
      fst (redeem_submit uid key_input now b) = Replied bad_format_reply) \<and>
   (checkCooldown b uid now = None \<and> fst (startOperation uid ''redeem'' now b) \<and>
    BlacklistGet uid \<notin> set (failing (core b)) \<and> uid \<notin> blacklist_coll b \<and>
    isValidKeyFormat (toUpperCase (trim key_input)) \<and>
    KeysGet (toUpperCase (trim key_input)) \<in> set (failing (core b)) \<longrightarrow>
      fst (redeem_submit uid key_input now b) = Replied internal_error_reply)"
proof -
  let ?b1 = "b\<lparr>activeOperations := (activeOperations b)(operation_key uid ''redeem'' \<mapsto> now)\<rparr>"
  have s: "fst (startOperation uid ''redeem'' now b) \<Longrightarrow>
           startOperation uid ''redeem'' now b = (True, ?b1)"
    by (rule startOperation_free)
  have n: "\<not> fst (startOperation uid ''redeem'' now b) \<Longrightarrow>
           startOperation uid ''redeem'' now b = (False, b)"
    by (simp add: startOperation_def split: option.splits)
  have 1: "\<forall>remaining. checkCooldown b uid now = Some remaining \<longrightarrow>
      fst (redeem_submit uid key_input now b) = Replied (cooldown_reply remaining)"
    by (simp add: redeem_submit_def)
  have 2: "checkCooldown b uid now = None \<and> \<not> fst (startOperation uid ''redeem'' now b) \<longrightarrow>
      fst (redeem_submit uid key_input now b) = Replied in_progress_reply"
  proof (intro impI, elim conjE)
    assume c: "checkCooldown b uid now = None" and ns: "\<not> fst (startOperation uid ''redeem'' now b)"
    show "fst (redeem_submit uid key_input now b) = Replied in_progress_reply"
      by (simp add: redeem_submit_def c n[OF ns])
  qed
  have 3: "checkCooldown b uid now = None \<and> fst (startOperation uid ''redeem'' now b) \<and>
    BlacklistGet uid \<in> set (failing (core b)) \<longrightarrow>
      fst (redeem_submit uid key_input now b) = Replied internal_error_reply"
  proof (intro impI, elim conjE)
    assume c: "checkCooldown b uid now = None" and st: "fst (startOperation uid ''redeem'' now b)"
      and f: "BlacklistGet uid \<in> set (failing (core b))"
    have "redeem_try uid key_input ?b1 =
            (Inl (StoreError (BlacklistGet uid)),
             ?b1\<lparr>core := (core b)\<lparr>requests := requests (core b) @ [[BlacklistGet uid]]\<rparr>\<rparr>)"
      using f by (simp add: redeem_try_def await_all_single_rejected)
    then show "fst (redeem_submit uid key_input now b) = Replied internal_error_reply"
      by (simp add: redeem_submit_def c s[OF st])
  qed
  have 4: "checkCooldown b uid now = None \<and> fst (startOperation uid ''redeem'' now b) \<and>
    BlacklistGet uid \<notin> set (failing (core b)) \<and> uid \<in> blacklist_coll b \<longrightarrow>
      fst (redeem_submit uid key_input now b) = Replied blacklisted_reply"
  proof (intro impI, elim conjE)
    assume c: "checkCooldown b uid now = None" and st: "fst (startOperation uid ''redeem'' now b)"
      and f: "BlacklistGet uid \<notin> set (failing (core b))" and bl: "uid \<in> blacklist_coll b"
    have "fst (redeem_try uid key_input ?b1) = Inr (Replied blacklisted_reply)"
      using f bl by (simp add: redeem_try_def await_all_single)
    then show "fst (redeem_submit uid key_input now b) = Replied blacklisted_reply"
      by (cases "redeem_try uid key_input ?b1") (simp add: redeem_submit_def c s[OF st])
  qed
  have 5: "checkCooldown b uid now = None \<and> fst (startOperation uid ''redeem'' now b) \<and>
    BlacklistGet uid \<notin> set (failing (core b)) \<and> uid \<notin> blacklist_coll b \<and>
    \<not> isValidKeyFormat (toUpperCase (trim key_input)) \<longrightarrow>
      fst (redeem_submit uid key_input now b) = Replied bad_format_reply"
  proof (intro impI, elim conjE)
    assume c: "checkCooldown b uid now = None" and st: "fst (startOperation uid ''redeem'' now b)"
      and f: "BlacklistGet uid \<notin> set (failing (core b))" and bl: "uid \<notin> blacklist_coll b"
      and v: "\<not> isValidKeyFormat (toUpperCase (trim key_input))"
    have "fst (redeem_try uid key_input ?b1) = Inr (Replied bad_format_reply)"
      using f bl v by (simp add: redeem_try_def await_all_single Let_def)
    then show "fst (redeem_submit uid key_input now b) = Replied bad_format_reply"
      by (cases "redeem_try uid key_input ?b1") (simp add: redeem_submit_def c s[OF st])
  qed
  have 6: "checkCooldown b uid now = None \<and> fst (startOperation uid ''redeem'' now b) \<and>
    BlacklistGet uid \<notin> set (failing (core b)) \<and> uid \<notin> blacklist_coll b \<and>
    isValidKeyFormat (toUpperCase (trim key_input)) \<and>
    KeysGet (toUpperCase (trim key_input)) \<in> set (failing (core b)) \<longrightarrow>
      fst (redeem_submit uid key_input now b) = Replied internal_error_reply"
  proof (intro impI, elim conjE)
    assume c: "checkCooldown b uid now = None" and st: "fst (startOperation uid ''redeem'' now b)"
      and f: "BlacklistGet uid \<notin> set (failing (core b))" and bl: "uid \<notin> blacklist_coll b"
      and v: "isValidKeyFormat (toUpperCase (trim key_input))"
      and g: "KeysGet (toUpperCase (trim key_input)) \<in> set (failing (core b))"
    have "\<exists>e. fst (redeem_try uid key_input ?b1) = Inl e"
      using f bl v g
      by (simp add: redeem_try_def await_all_single await_all_single_rejected Let_def)
    then show "fst (redeem_submit uid key_input now b) = Replied internal_error_reply"
      by (cases "redeem_try uid key_input ?b1") (auto simp: redeem_submit_def c s[OF st])
  qed
  show ?thesis by (intro conjI 1 2 3 4 5 6)
qed


text \<open>
  Claim C9, as stated, fails: a caller who passes every guard and submits a key of valid
  format that is already bound, whose record has no display label, is told the holder's raw
  identity; two such records that differ only in the raw identity get different replies.
\<close>

theorem bound_reply_counterexample:
  "checkCooldown (b_bound kd_nolabel) ''42'' 10 = None \<and>
   fst (startOperation ''42'' ''redeem'' 10 (b_bound kd_nolabel)) \<and>
   ''42'' \<notin> blacklist_coll (b_bound kd_nolabel) \<and>
   failing (core (b_bound kd_nolabel)) = [] \<and>
   toUpperCase (trim key1) = key1 \<and> isValidKeyFormat key1 \<and>
   map_of (keys_coll (core (b_bound kd_nolabel))) key1 = Some kd_nolabel \<and>
   userId kd_nolabel = Some ''1234'' \<and>
   fst (redeem_submit ''42'' key1 10 (b_bound kd_nolabel)) =
     Replied ([CHR 0xE2, CHR 0x9D, CHR 0x8C] @ '' Key sudah dipakai oleh **1234**!'') \<and>
   usedByDiscord kd_nolabel = usedByDiscord (kd_nolabel\<lparr>userId := Some ''5678''\<rparr>) \<and>
   fst (redeem_submit ''42'' key1 10 (b_bound kd_nolabel)) \<noteq>
   fst (redeem_submit ''42'' key1 10 (b_bound (kd_nolabel\<lparr>userId := Some ''5678''\<rparr>)))"
  by (simp add: handler_defs key1_def b_bound_def b0_def s0_def kd_nolabel_def kd0_def
      already_used_reply_def holder_label_def str_truthy_def)


text \<open>
  Claim C9, amended. For a redemption attempt that reaches the check for a bound key (the
  caller is not on cooldown, has no redeem in flight and is not on the blacklist, the
  trimmed and upper-cased input has the key format, and the store answers both reads)
  against a key that is already bound, the reply names the holder's display label when the
  record has a non-empty one, and is then built from the label alone; when the label is
  missing or empty the reply names the raw identity instead, and \<open>Unknown\<close> when that is
  missing or empty too. The marker of the redeem is released.
\<close>

theorem bound_reply_label:
  assumes "checkCooldown b uid now = None"
    and "fst (startOperation uid ''redeem'' now b)"
    and "uid \<notin> blacklist_coll b" and "BlacklistGet uid \<notin> set (failing (core b))"
    and "isValidKeyFormat (toUpperCase (trim key_input))"
    and "KeysGet (toUpperCase (trim key_input)) \<notin> set (failing (core b))"
    and "map_of (keys_coll (core b)) (toUpperCase (trim key_input)) = Some activeData"
  shows "(\<forall>label. usedByDiscord activeData = Some label \<and> label \<noteq> [] \<longrightarrow>
            fst (redeem_submit uid key_input now b) =
              Replied ([CHR 0xE2, CHR 0x9D, CHR 0x8C] @ '' Key sudah dipakai oleh **'' @ label @ ''**!'')) \<and>
         (\<forall>ident. \<not> str_truthy (usedByDiscord activeData) \<and> userId activeData = Some ident \<and>
                  ident \<noteq> [] \<longrightarrow>
            fst (redeem_submit uid key_input now b) =
              Replied ([CHR 0xE2, CHR 0x9D, CHR 0x8C] @ '' Key sudah dipakai oleh **'' @ ident @ ''**!'')) \<and>
         (\<not> str_truthy (usedByDiscord activeData) \<and> \<not> str_truthy (userId activeData) \<longrightarrow>
            fst (redeem_submit uid key_input now b) =
              Replied ([CHR 0xE2, CHR 0x9D, CHR 0x8C] @ '' Key sudah dipakai oleh **Unknown**!'')) \<and>
         activeOperations (snd (redeem_submit uid key_input now b)) (operation_key uid ''redeem'') = None"
proof -
  note r = redeem_submit_bound[OF assms]
  have 1: "\<forall>label. usedByDiscord activeData = Some label \<and> label \<noteq> [] \<longrightarrow>
            fst (redeem_submit uid key_input now b) =
              Replied ([CHR 0xE2, CHR 0x9D, CHR 0x8C] @ '' Key sudah dipakai oleh **'' @ label @ ''**!'')"
    by (simp add: r(1) already_used_reply_def holder_label_def str_truthy_def)
  have 2: "\<forall>ident. \<not> str_truthy (usedByDiscord activeData) \<and> userId activeData = Some ident \<and>
                  ident \<noteq> [] \<longrightarrow>
            fst (redeem_submit uid key_input now b) =
              Replied ([CHR 0xE2, CHR 0x9D, CHR 0x8C] @ '' Key sudah dipakai oleh **'' @ ident @ ''**!'')"
    by (simp add: r(1) already_used_reply_def holder_label_def str_truthy_def)
  have 3: "\<not> str_truthy (usedByDiscord activeData) \<and> \<not> str_truthy (userId activeData) \<longrightarrow>
            fst (redeem_submit uid key_input now b) =
              Replied ([CHR 0xE2, CHR 0x9D, CHR 0x8C] @ '' Key sudah dipakai oleh **Unknown**!'')"
    by (simp add: r(1) already_used_reply_def holder_label_def)
  show ?thesis by (intro conjI 1 2 3 r(2))
qed

theorem bound_reply_label_witness:
  "checkCooldown (b_bound kd0) ''42'' 10 = None \<and>
   fst (startOperation ''42'' ''redeem'' 10 (b_bound kd0)) \<and>
   ''42'' \<notin> blacklist_coll (b_bound kd0) \<and> failing (core (b_bound kd0)) = [] \<and>
   toUpperCase (trim ''  vorahub-abcdef-123456-789012 '') = key1 \<and> isValidKeyFormat key1 \<and>
   map_of (keys_coll (core (b_bound kd0))) key1 = Some kd0 \<and>
   usedByDiscord kd0 = Some ''t'' \<and>
   fst (redeem_submit ''42'' ''  vorahub-abcdef-123456-789012 '' 10 (b_bound kd0)) =
     Replied ([CHR 0xE2, CHR 0x9D, CHR 0x8C] @ '' Key sudah dipakai oleh **t**!'') \<and>
   activeOperations (snd (redeem_submit ''42'' ''  vorahub-abcdef-123456-789012 '' 10 (b_bound kd0)))
     (operation_key ''42'' ''redeem'') = None"
proof -
  have c: "checkCooldown (b_bound kd0) ''42'' 10 = None"
    by (simp add: checkCooldown_def b_bound_def b0_def)
  have s: "fst (startOperation ''42'' ''redeem'' 10 (b_bound kd0))"
    by (simp add: startOperation_def b_bound_def b0_def)
  have bl: "''42'' \<notin> blacklist_coll (b_bound kd0)" by (simp add: b_bound_def b0_def)
  have f: "failing (core (b_bound kd0)) = []" by (simp add: b_bound_def b0_def s0_def)
  have u: "toUpperCase (trim ''  vorahub-abcdef-123456-789012 '') = key1"
    by (simp add: trim_def toUpperCase_def is_space_def key1_def)
  have v: "isValidKeyFormat key1"
    by (simp add: isValidKeyFormat_def match_literal_def match_hex6_def KEY_PREFIX_def key1_def)
  have m: "map_of (keys_coll (core (b_bound kd0))) key1 = Some kd0"
    by (simp add: b_bound_def b0_def s0_def)
  have l: "usedByDiscord kd0 = Some ''t''" by (simp add: kd0_def)
  have f1: "BlacklistGet ''42'' \<notin> set (failing (core (b_bound kd0)))" by (simp add: f)
  have v': "isValidKeyFormat (toUpperCase (trim ''  vorahub-abcdef-123456-789012 ''))"
    by (simp only: u v)
  have f2: "KeysGet (toUpperCase (trim ''  vorahub-abcdef-123456-789012 '')) \<notin>
            set (failing (core (b_bound kd0)))" by (simp add: f)
  have m': "map_of (keys_coll (core (b_bound kd0)))
              (toUpperCase (trim ''  vorahub-abcdef-123456-789012 '')) = Some kd0"
    by (simp only: u m)
  note t = bound_reply_label[OF c s bl f1 v' f2 m']
  from t l have r: "fst (redeem_submit ''42'' ''  vorahub-abcdef-123456-789012 '' 10 (b_bound kd0)) =
     Replied ([CHR 0xE2, CHR 0x9D, CHR 0x8C] @ '' Key sudah dipakai oleh **'' @ ''t'' @ ''**!'')"
    by blast
  from t have e: "activeOperations
      (snd (redeem_submit ''42'' ''  vorahub-abcdef-123456-789012 '' 10 (b_bound kd0)))
      (operation_key ''42'' ''redeem'') = None" by blast
  from r have r': "fst (redeem_submit ''42'' ''  vorahub-abcdef-123456-789012 '' 10 (b_bound kd0)) =
     Replied ([CHR 0xE2, CHR 0x9D, CHR 0x8C] @ '' Key sudah dipakai oleh **t**!'')" by simp
  show ?thesis by (intro conjI c s bl f u v m l r' e)
qed

section \<open>An identity with nothing in the store\<close>

text \<open>
  Claim C3, as stated, fails: on the empty store a first call returns no keys, but after
  two rounds of requests, not one.
\<close>

theorem empty_identity_counterexample:
  "keys_where_userId s0 ''u'' = [] \<and> keys_where_usedByDiscord s0 ''t'' = [] \<and>
   whitelist_coll s0 ''u'' = None \<and>
   fst (getUserActiveKeys ''u'' ''t'' False 10 s0) = Inr [] \<and>
   requests (snd (getUserActiveKeys ''u'' ''t'' False 10 s0)) =
     [[KeysWhereUserId ''u'', WhitelistGet ''u''],
      [KeysWhereUsedByDiscord ''t'', KeysWhereUsedByDiscord ''t'']] \<and>
   length (requests (snd (getUserActiveKeys ''u'' ''t'' False 10 s0))) \<noteq> 1"
  by (simp add: s0_def getUserActiveKeys_def refreshUserKeys_def reconcile_def await_all_def
     keys_where_userId_def fallback_stage_def keys_where_usedByDiscord_def whitelist_stage_def
     username_of_def)


text \<open>
  Claim C3, amended. For an identity with no key record by identity or by either alias
  lookup and no whitelist grant, a call that does not hit a valid cache entry (forced, no
  entry, or a hard-expired one), with the store answering these reads, returns the empty
  sequence after exactly two rounds of requests: the identity query together with the
  whitelist lookup, then the two alias queries together. Nothing is written and nothing is
  retried.
\<close>

theorem empty_identity_two_rounds:
  assumes "keys_where_userId s uid = []"
    and "keys_where_usedByDiscord s discordTag = []"
    and "keys_where_usedByDiscord s (username_of discordTag) = []"
    and "whitelist_coll s uid = None"
    and "KeysWhereUserId uid \<notin> set (failing s)" and "WhitelistGet uid \<notin> set (failing s)"
    and "KeysWhereUsedByDiscord discordTag \<notin> set (failing s)"
    and "KeysWhereUsedByDiscord (username_of discordTag) \<notin> set (failing s)"
    and "forceRefresh \<or> (\<forall>c. userKeyCache s uid = Some c \<longrightarrow> expires c \<le> now)"
  shows "fst (getUserActiveKeys uid discordTag forceRefresh now s) = Inr [] \<and>
         requests (snd (getUserActiveKeys uid discordTag forceRefresh now s)) =
           requests s @ [[KeysWhereUserId uid, WhitelistGet uid],
                         [KeysWhereUsedByDiscord discordTag,
                          KeysWhereUsedByDiscord (username_of discordTag)]]"
proof -
  have k: "keys_where_userId (s\<lparr>requests := x\<rparr>) uid = []" for x
    using assms(1) by (simp add: keys_where_userId_def)
  have t: "keys_where_usedByDiscord (s\<lparr>requests := x\<rparr>) discordTag = []" for x
    using assms(2) by (simp add: keys_where_usedByDiscord_def)
  have u: "keys_where_usedByDiscord (s\<lparr>requests := x\<rparr>) (username_of discordTag) = []" for x
    using assms(3) by (simp add: keys_where_usedByDiscord_def)
  have r: "refreshUserKeys uid discordTag False now s =
     (Inr [], s\<lparr>requests := requests s @ [[KeysWhereUserId uid, WhitelistGet uid],
                         [KeysWhereUsedByDiscord discordTag,
                          KeysWhereUsedByDiscord (username_of discordTag)]],
               console := console s @ [KeysLog False discordTag 0],
               userKeyCache := (userKeyCache s)(uid \<mapsto>
                     \<lparr>keys = [], expires = now + CACHE_DURATION, lastRefresh = now\<rparr>)\<rparr>)"
    using assms(4-8)
    by (simp add: refreshUserKeys_def reconcile_def await_all_def fallback_stage_def
        whitelist_stage_def k t u)
  have "getUserActiveKeys uid discordTag forceRefresh now s = refreshUserKeys uid discordTag False now s"
    using assms(9) by (auto simp: getUserActiveKeys_def split: option.splits)
  then show ?thesis by (simp add: r)
qed

theorem empty_identity_two_rounds_witness:
  "keys_where_userId s0 ''u'' = [] \<and> keys_where_usedByDiscord s0 ''t#1'' = [] \<and>
   keys_where_usedByDiscord s0 (username_of ''t#1'') = [] \<and> whitelist_coll s0 ''u'' = None \<and>
   failing s0 = [] \<and> userKeyCache s0 ''u'' = None \<and>
   fst (getUserActiveKeys ''u'' ''t#1'' False 10 s0) = Inr [] \<and>
   requests (snd (getUserActiveKeys ''u'' ''t#1'' False 10 s0)) =
     [[KeysWhereUserId ''u'', WhitelistGet ''u''],
      [KeysWhereUsedByDiscord ''t#1'', KeysWhereUsedByDiscord ''t'']]"
proof -
  have 1: "keys_where_userId s0 ''u'' = []" by (simp add: keys_where_userId_def s0_def)
  have 2: "keys_where_usedByDiscord s0 ''t#1'' = []" by (simp add: keys_where_usedByDiscord_def s0_def)
  have 3: "keys_where_usedByDiscord s0 (username_of ''t#1'') = []"
    by (simp add: keys_where_usedByDiscord_def s0_def)
  have 4: "whitelist_coll s0 ''u'' = None" by (simp add: s0_def)
  have f: "failing s0 = []" by (simp add: s0_def)
  have c: "userKeyCache s0 ''u'' = None" by (simp add: s0_def)
  have u: "username_of ''t#1'' = ''t''" by (simp add: username_of_def)
  have rq: "requests s0 = []" by (simp add: s0_def)
  have "fst (getUserActiveKeys ''u'' ''t#1'' False 10 s0) = Inr [] \<and>
         requests (snd (getUserActiveKeys ''u'' ''t#1'' False 10 s0)) =
           requests s0 @ [[KeysWhereUserId ''u'', WhitelistGet ''u''],
                         [KeysWhereUsedByDiscord ''t#1'',
                          KeysWhereUsedByDiscord (username_of ''t#1'')]]"
    by (rule empty_identity_two_rounds[OF 1 2 3 4]) (simp_all add: f c)
  then show ?thesis using 1 2 3 4 f c by (simp add: u rq)
qed

section \<open>The result of a refresh that succeeds\<close>

lemma keys_where_userId_requests [simp]:
  "keys_where_userId (s\<lparr>requests := x\<rparr>) uid = keys_where_userId s uid"
  by (simp add: keys_where_userId_def)

lemma keys_where_usedByDiscord_requests [simp]:
  "keys_where_usedByDiscord (s\<lparr>requests := x\<rparr>) t = keys_where_usedByDiscord s t"
  by (simp add: keys_where_usedByDiscord_def)

lemma fallback_acc_requests [simp]:
  "fallback_acc uid tag bg now (s\<lparr>requests := x\<rparr>) acc = fallback_acc uid tag bg now s acc"
  by (simp add: fallback_acc_def)

lemma whitelist_acc_requests [simp]:
  "whitelist_acc uid tag now (s\<lparr>requests := x\<rparr>) acc = whitelist_acc uid tag now s acc"
  by (simp add: whitelist_acc_def split: option.splits)

lemma fallback_stage_Inr:
  assumes "fallback_stage uid tag bg now acc s = (Inr acc', s')"
  shows "acc' = fallback_acc uid tag bg now s acc"
proof (cases "fst acc = [] \<and> \<not> bg")
  case False
  with assms show ?thesis by (auto simp: fallback_stage_def fallback_acc_def)
next
  case True
  let ?q = "[KeysWhereUsedByDiscord tag, KeysWhereUsedByDiscord (username_of tag)]"
  obtain r1 s1 where a: "await_all ?q s = (r1, s1)" by (cases "await_all ?q s") auto
  from await_all_spec[OF a] have s1: "s1 = s\<lparr>requests := requests s @ [?q]\<rparr>" by simp
  show ?thesis
  proof (cases r1)
    case (Inl e)
    with assms True a show ?thesis by (simp add: fallback_stage_def)
  next
    case (Inr u)
    with assms True a have "acc' = fold (process_fallback_doc uid now)
          (keys_where_usedByDiscord s1 (username_of tag))
          (fold (process_fallback_doc uid now) (keys_where_usedByDiscord s1 tag) acc)"
      by (auto simp: fallback_stage_def)
    then show ?thesis using True by (simp add: s1 fallback_acc_def)
  qed
qed

lemma whitelist_stage_Inr:
  assumes "whitelist_stage uid tag now (whitelist_coll s uid) acc s = (Inr acc', s')"
  shows "acc' = whitelist_acc uid tag now s acc"
proof (cases "\<exists>w k. whitelist_coll s uid = Some w \<and> key w = Some k \<and> k \<noteq> [] \<and> k \<notin> set (fst acc)")
  case False
  with assms show ?thesis
    by (auto simp: whitelist_stage_def whitelist_acc_def split: option.splits if_splits)
next
  case True
  then obtain w k where w: "whitelist_coll s uid = Some w" "key w = Some k" "k \<noteq> []"
    "k \<notin> set (fst acc)" by blast
  obtain r1 s1 where a: "await_all [KeysGet k] s = (r1, s1)"
    by (cases "await_all [KeysGet k] s") auto
  from await_all_spec[OF a] have s1: "s1 = s\<lparr>requests := requests s @ [[KeysGet k]]\<rparr>" by simp
  show ?thesis
  proof (cases r1)
    case (Inl e)
    with assms w a show ?thesis by (simp add: whitelist_stage_def)
  next
    case (Inr u)
    have kc: "keys_coll s1 = keys_coll s" by (simp add: s1)
    show ?thesis using assms w a Inr kc
      by (auto simp: whitelist_stage_def whitelist_acc_def split: option.splits)
  qed
qed

lemma reconcile_Inr:
  assumes "reconcile uid tag bg now s = (Inr acc, s')"
  shows "acc = reconcile_acc uid tag bg now s"
proof -
  let ?q1 = "[KeysWhereUserId uid, WhitelistGet uid]"
  obtain r1 s1 where a: "await_all ?q1 s = (r1, s1)" by (cases "await_all ?q1 s") auto
  from await_all_spec[OF a] have s1: "s1 = s\<lparr>requests := requests s @ [?q1]\<rparr>" by simp
  show ?thesis
  proof (cases r1)
    case (Inl e)
    with assms a show ?thesis by (simp add: reconcile_def)
  next
    case (Inr u)
    let ?acc = "fold (process_userId_doc tag now) (keys_where_userId s1 uid) ([], [])"
    obtain r2 s2 where b: "fallback_stage uid tag bg now ?acc s1 = (r2, s2)"
      by (cases "fallback_stage uid tag bg now ?acc s1") auto
    from fallback_stage_ok[OF b] obtain rounds where
      s2: "s2 = s1\<lparr>requests := requests s1 @ rounds\<rparr>" by (rule stage_okE)
    show ?thesis
    proof (cases r2)
      case (Inl e)
      with assms a b Inr show ?thesis by (simp add: reconcile_def)
    next
      case (Inr acc2)
      with assms a b \<open>r1 = Inr u\<close>
      have c: "whitelist_stage uid tag now (whitelist_coll s2 uid) acc2 s2 = (Inr acc, s')"
        by (simp add: reconcile_def)
      have acc2: "acc2 = fallback_acc uid tag bg now s1 ?acc"
        using b Inr fallback_stage_Inr by simp
      from whitelist_stage_Inr[OF c] have "acc = whitelist_acc uid tag now s2 acc2" .
      then show ?thesis by (simp add: acc2 s2 s1 reconcile_acc_def)
    qed
  qed
qed

lemma refreshUserKeys_Inr:
  assumes "refreshUserKeys uid tag bg now s = (Inr ks, s')"
  shows "\<exists>s1. reconcile uid tag bg now s = (Inr (reconcile_acc uid tag bg now s), s1) \<and>
         ks = fst (reconcile_acc uid tag bg now s)"
proof -
  obtain r1 s1 where a: "reconcile uid tag bg now s = (r1, s1)"
    by (cases "reconcile uid tag bg now s") auto
  show ?thesis
  proof (cases r1)
    case (Inl e)
    with assms a show ?thesis by (simp add: refreshUserKeys_def)
  next
    case (Inr p)
    with a have p: "p = reconcile_acc uid tag bg now s" using reconcile_Inr by simp
    obtain ks1 ops where po: "p = (ks1, ops)" by (cases p) auto
    have "ks = ks1" using assms a Inr po
      by (auto simp: refreshUserKeys_def split: sum.splits if_splits prod.splits)
    moreover have "ks1 = fst p" using po by simp
    ultimately have "ks = fst (reconcile_acc uid tag bg now s)" using p by simp
    moreover have "reconcile uid tag bg now s = (Inr (reconcile_acc uid tag bg now s), s1)"
      using a Inr p by simp
    ultimately show ?thesis by blast
  qed
qed

lemma refreshUserKeys_succeeds:
  assumes "failing s = []"
  shows "\<exists>ks s'. refreshUserKeys uid tag bg now s = (Inr ks, s')"
proof -
  obtain r s' where a: "refreshUserKeys uid tag bg now s = (r, s')"
    by (cases "refreshUserKeys uid tag bg now s") auto
  from refreshUserKeys_spec[OF a] obtain rounds where "outcome_ok s (concat rounds) r" by blast
  then have "\<exists>ks. r = Inr ks" using assms by (cases r) (simp_all add: outcome_ok_def)
  with a show ?thesis by blast
qed

section \<open>Which keys each pass adds, and which updates it queues\<close>

lemma set_set_add [simp]: "set (set_add x xs) = insert x (set xs)"
  by (auto simp: set_add_def)

lemma whitelisted_not_expired: "whitelisted d \<Longrightarrow> \<not> truthy (isKeyExpired (Some d) now)"
  by simp

lemma include_iff:
  "(\<not> whitelisted d \<and> \<not> truthy (isKeyExpired (Some d) now)) \<or> whitelisted d \<or> expiresAt d = JNull
     \<longleftrightarrow> \<not> truthy (isKeyExpired (Some d) now)"
  by auto

lemma process_userId_doc_keys:
  "set (fst (process_userId_doc tag now (k, d) acc)) =
     set (fst acc) \<union> (if truthy (isKeyExpired (Some d) now) then {} else {k})"
proof (cases acc)
  case (Pair ks ops)
  show ?thesis
  proof (cases "truthy (isKeyExpired (Some d) now)")
    case True
    then have "\<not> whitelisted d" "expiresAt d \<noteq> JNull" by (auto split: if_splits)
    with True show ?thesis by (simp add: Pair del: isKeyExpired.simps)
  next
    case False
    then show ?thesis by (cases "whitelisted d") (simp_all add: Pair del: isKeyExpired.simps)
  qed
qed

lemma fold_process_userId_doc_keys:
  "set (fst (fold (process_userId_doc tag now) docs acc)) =
     set (fst acc) \<union> {k. \<exists>d. (k, d) \<in> set docs \<and> \<not> truthy (isKeyExpired (Some d) now)}"
proof (induction docs arbitrary: acc)
  case Nil
  then show ?case by simp
next
  case (Cons doc docs)
  obtain k d where doc: "doc = (k, d)" by (cases doc) auto
  have "set (fst (fold (process_userId_doc tag now) (doc # docs) acc)) =
        set (fst (process_userId_doc tag now (k, d) acc)) \<union>
          {k. \<exists>d. (k, d) \<in> set docs \<and> \<not> truthy (isKeyExpired (Some d) now)}"
    using Cons.IH by (simp add: doc)
  then show ?case unfolding process_userId_doc_keys doc by auto
qed

lemma process_fallback_doc_keys:
  "set (fst (process_fallback_doc uid now (k, d) acc)) =
     set (fst acc) \<union> (if truthy (isKeyExpired (Some d) now) then {} else {k})"
  by (cases acc) (auto simp del: isKeyExpired.simps)

lemma fold_process_fallback_doc_keys:
  "set (fst (fold (process_fallback_doc uid now) docs acc)) =
     set (fst acc) \<union> {k. \<exists>d. (k, d) \<in> set docs \<and> \<not> truthy (isKeyExpired (Some d) now)}"
proof (induction docs arbitrary: acc)
  case Nil
  then show ?case by simp
next
  case (Cons doc docs)
  obtain k d where doc: "doc = (k, d)" by (cases doc) auto
  have "set (fst (fold (process_fallback_doc uid now) (doc # docs) acc)) =
        set (fst (process_fallback_doc uid now (k, d) acc)) \<union>
          {k. \<exists>d. (k, d) \<in> set docs \<and> \<not> truthy (isKeyExpired (Some d) now)}"
    using Cons.IH by (simp add: doc)
  then show ?case unfolding process_fallback_doc_keys doc by auto
qed

lemma process_fallback_doc_ops:
  "set (snd acc) \<subseteq> set (snd (process_fallback_doc uid now doc acc))"
  by (cases acc; cases doc) (auto simp del: isKeyExpired.simps)

lemma fold_process_fallback_doc_ops:
  "set (snd acc) \<subseteq> set (snd (fold (process_fallback_doc uid now) docs acc))"
proof (induction docs arbitrary: acc)
  case Nil
  then show ?case by simp
next
  case (Cons doc docs)
  have "set (snd acc) \<subseteq> set (snd (process_fallback_doc uid now doc acc))"
    by (rule process_fallback_doc_ops)
  also have "\<dots> \<subseteq> set (snd (fold (process_fallback_doc uid now) docs
                              (process_fallback_doc uid now doc acc)))"
    by (rule Cons.IH)
  finally show ?case by simp
qed

lemma fold_process_fallback_doc_update:
  assumes "(k, d) \<in> set docs" and "\<not> truthy (isKeyExpired (Some d) now)"
    and "\<not> str_truthy (userId d)" and "k \<notin> set (fst acc)"
    and "\<forall>d'. (k, d') \<in> set docs \<longrightarrow> d' = d"
  shows "BatchUpdate k [SetUserId uid] \<in> set (snd (fold (process_fallback_doc uid now) docs acc))"
  using assms
proof (induction docs arbitrary: acc)
  case Nil
  then show ?case by simp
next
  case (Cons doc docs)
  obtain k' d' where doc: "doc = (k', d')" by (cases doc) auto
  obtain ks ops where acc: "acc = (ks, ops)" by (cases acc) auto
  show ?case
  proof (cases "k' = k")
    case True
    with Cons.prems(5) doc have d': "d' = d" by simp
    have "BatchUpdate k [SetUserId uid] \<in> set (snd (process_fallback_doc uid now doc acc))"
      using Cons.prems(2,3,4) by (simp add: doc acc True d' del: isKeyExpired.simps)
    then have "BatchUpdate k [SetUserId uid] \<in>
        set (snd (fold (process_fallback_doc uid now) docs (process_fallback_doc uid now doc acc)))"
      using fold_process_fallback_doc_ops by blast
    then show ?thesis by simp
  next
    case False
    with Cons.prems(1) doc have in_docs: "(k, d) \<in> set docs" by auto
    have nk: "k \<notin> set (fst (process_fallback_doc uid now doc acc))"
      using Cons.prems(4) False unfolding doc process_fallback_doc_keys by auto
    have uniq: "\<forall>d'. (k, d') \<in> set docs \<longrightarrow> d' = d" using Cons.prems(5) by simp
    from Cons.IH[OF in_docs Cons.prems(2,3) nk uniq] show ?thesis by simp
  qed
qed

lemma whitelist_acc_keys:
  "set (fst (whitelist_acc uid tag now s acc)) =
     set (fst acc) \<union> {k. k \<noteq> [] \<and> (\<exists>w. whitelist_coll s uid = Some w \<and> key w = Some k)}"
  by (auto simp: whitelist_acc_def split: option.splits)

lemma whitelist_acc_ops: "set (snd acc) \<subseteq> set (snd (whitelist_acc uid tag now s acc))"
  by (auto simp: whitelist_acc_def split: option.splits)

lemma fallback_acc_ops: "set (snd acc) \<subseteq> set (snd (fallback_acc uid tag bg now s acc))"
proof (cases "fst acc = [] \<and> \<not> bg")
  case True
  have "set (snd acc) \<subseteq> set (snd (fold (process_fallback_doc uid now) (keys_where_usedByDiscord s tag) acc))"
    by (rule fold_process_fallback_doc_ops)
  also have "\<dots> \<subseteq> set (snd (fold (process_fallback_doc uid now)
        (keys_where_usedByDiscord s (username_of tag))
        (fold (process_fallback_doc uid now) (keys_where_usedByDiscord s tag) acc)))"
    by (rule fold_process_fallback_doc_ops)
  finally show ?thesis using True by (simp add: fallback_acc_def)
next
  case False
  then show ?thesis by (auto simp: fallback_acc_def)
qed

lemma fallback_acc_keys:
  "set (fst (fallback_acc uid tag bg now s acc)) =
     set (fst acc) \<union>
     (if fst acc = [] \<and> \<not> bg
      then {k. \<exists>d. (k, d) \<in> set (keys_where_usedByDiscord s tag) \<union>
                              set (keys_where_usedByDiscord s (username_of tag)) \<and>
                    \<not> truthy (isKeyExpired (Some d) now)}
      else {})"
  by (auto simp: fallback_acc_def fold_process_fallback_doc_keys)

section \<open>The key set of a refresh\<close>

lemma fold_process_userId_doc_Nil_iff:
  "fst (fold (process_userId_doc tag now) docs ([], [])) = [] \<longleftrightarrow>
   (\<forall>(k, d) \<in> set docs. truthy (isKeyExpired (Some d) now))"
proof -
  have "fst (fold (process_userId_doc tag now) docs ([], [])) = [] \<longleftrightarrow>
        set (fst (fold (process_userId_doc tag now) docs ([], []))) = {}" by simp
  also have "\<dots> \<longleftrightarrow> (\<forall>(k, d) \<in> set docs. truthy (isKeyExpired (Some d) now))"
    unfolding fold_process_userId_doc_keys by auto
  finally show ?thesis .
qed

text \<open>The key set of a refresh whose reads succeed.\<close>

lemma reconcile_acc_keys:
  "set (fst (reconcile_acc uid tag bg now s)) =
     {k. \<exists>d. (k, d) \<in> set (keys_where_userId s uid) \<and> \<not> truthy (isKeyExpired (Some d) now)} \<union>
     (if (\<forall>(k, d) \<in> set (keys_where_userId s uid). truthy (isKeyExpired (Some d) now)) \<and> \<not> bg
      then {k. \<exists>d. (k, d) \<in> set (keys_where_usedByDiscord s tag) \<union>
                              set (keys_where_usedByDiscord s (username_of tag)) \<and>
                    \<not> truthy (isKeyExpired (Some d) now)}
      else {}) \<union>
     {k. k \<noteq> [] \<and> (\<exists>w. whitelist_coll s uid = Some w \<and> key w = Some k)}"
  unfolding reconcile_acc_def whitelist_acc_keys fallback_acc_keys fold_process_userId_doc_Nil_iff
    fold_process_userId_doc_keys
  by simp

lemma refresh_result:
  assumes "failing s = []"
  shows "\<exists>s1 s'. reconcile uid tag bg now s = (Inr (reconcile_acc uid tag bg now s), s1) \<and>
           refreshUserKeys uid tag bg now s = (Inr (fst (reconcile_acc uid tag bg now s)), s')"
proof -
  from refreshUserKeys_succeeds[OF assms] obtain ks s' where
    a: "refreshUserKeys uid tag bg now s = (Inr ks, s')" by blast
  from refreshUserKeys_Inr[OF a] obtain s1 where
    "reconcile uid tag bg now s = (Inr (reconcile_acc uid tag bg now s), s1)"
    "ks = fst (reconcile_acc uid tag bg now s)" by blast
  with a show ?thesis by blast
qed

lemma keys_where_userId_subset: "set (keys_where_userId s uid) \<subseteq> set (keys_coll s)"
  by (auto simp: keys_where_userId_def)

lemma keys_where_usedByDiscord_subset: "set (keys_where_usedByDiscord s t) \<subseteq> set (keys_coll s)"
  by (auto simp: keys_where_usedByDiscord_def dest: in_set_takeD)

lemma distinct_keys_same_doc:
  assumes "distinct (map fst xs)" and "(k, d) \<in> set xs" and "(k, d') \<in> set xs"
  shows "d' = d"
proof -
  from assms(1,2) have "map_of xs k = Some d" by simp
  moreover from assms(1,3) have "map_of xs k = Some d'" by simp
  ultimately show ?thesis by simp
qed

lemma reconcile_acc_mem:
  "k \<in> set (fst (reconcile_acc uid tag bg now s)) \<longleftrightarrow>
     (\<exists>d. (k, d) \<in> set (keys_where_userId s uid) \<and> \<not> truthy (isKeyExpired (Some d) now)) \<or>
     ((\<forall>(k', d') \<in> set (keys_where_userId s uid). truthy (isKeyExpired (Some d') now)) \<and> \<not> bg \<and>
      (\<exists>d. (k, d) \<in> set (keys_where_usedByDiscord s tag) \<union>
                      set (keys_where_usedByDiscord s (username_of tag)) \<and>
           \<not> truthy (isKeyExpired (Some d) now))) \<or>
     (k \<noteq> [] \<and> (\<exists>w. whitelist_coll s uid = Some w \<and> key w = Some k))"
proof (cases "(\<forall>(k', d') \<in> set (keys_where_userId s uid). truthy (isKeyExpired (Some d') now)) \<and> \<not> bg")
  case True
  show ?thesis unfolding reconcile_acc_keys if_P[OF True] using True by blast
next
  case False
  show ?thesis unfolding reconcile_acc_keys if_not_P[OF False] using False by blast
qed

lemma identity_key_in_result:
  assumes "(k, d) \<in> set (keys_where_userId s uid)" and "\<not> truthy (isKeyExpired (Some d) now)"
  shows "k \<in> set (fst (reconcile_acc uid tag bg now s))"
proof -
  have "\<exists>d. (k, d) \<in> set (keys_where_userId s uid) \<and> \<not> truthy (isKeyExpired (Some d) now)"
    using assms by blast
  then show ?thesis by (intro iffD2[OF reconcile_acc_mem] disjI1)
qed

lemma fallback_key_in_result:
  assumes "\<forall>(k', d') \<in> set (keys_where_userId s uid). truthy (isKeyExpired (Some d') now)"
    and "\<not> bg"
    and "(k, d) \<in> set (keys_where_usedByDiscord s tag) \<union>
                  set (keys_where_usedByDiscord s (username_of tag))"
    and "\<not> truthy (isKeyExpired (Some d) now)"
  shows "k \<in> set (fst (reconcile_acc uid tag bg now s))"
proof -
  have "\<exists>d. (k, d) \<in> set (keys_where_usedByDiscord s tag) \<union>
                      set (keys_where_usedByDiscord s (username_of tag)) \<and>
           \<not> truthy (isKeyExpired (Some d) now)"
    using assms(3,4) by blast
  with assms(1,2) show ?thesis
    by (intro iffD2[OF reconcile_acc_mem] disjI2 disjI1 conjI)
qed

lemma whitelist_key_in_result:
  assumes "whitelist_coll s uid = Some w" and "key w = Some k" and "k \<noteq> []"
  shows "k \<in> set (fst (reconcile_acc uid tag bg now s))"
proof -
  have "\<exists>w. whitelist_coll s uid = Some w \<and> key w = Some k" using assms(1,2) by blast
  with assms(3) show ?thesis
    by (intro iffD2[OF reconcile_acc_mem] disjI2 conjI)
qed

lemma result_key_cases:
  assumes "k \<in> set (fst (reconcile_acc uid tag bg now s))"
  shows "(\<exists>d. (k, d) \<in> set (keys_coll s) \<and> \<not> truthy (isKeyExpired (Some d) now)) \<or>
         (\<exists>w. whitelist_coll s uid = Some w \<and> key w = Some k)"
proof -
  from iffD1[OF reconcile_acc_mem assms] consider
    (a) d where "(k, d) \<in> set (keys_where_userId s uid)" "\<not> truthy (isKeyExpired (Some d) now)"
  | (b) d where "(k, d) \<in> set (keys_where_usedByDiscord s tag) \<union>
                              set (keys_where_usedByDiscord s (username_of tag))"
       "\<not> truthy (isKeyExpired (Some d) now)"
  | (c) w where "whitelist_coll s uid = Some w" "key w = Some k"
    by (elim disjE conjE exE)
  then show ?thesis
  proof cases
    case a
    then show ?thesis using keys_where_userId_subset by blast
  next
    case b
    then show ?thesis using keys_where_usedByDiscord_subset by blast
  next
    case c
    then show ?thesis by blast
  qed
qed

section \<open>Expiry and the key set\<close>

lemmas eval_defs = s0_def kd0_def refreshUserKeys_def reconcile_def await_all_def
  keys_where_userId_def fallback_stage_def keys_where_usedByDiscord_def whitelist_stage_def
  username_of_def safeBatchCommit_def make_batches_def BATCH_LIMIT_def commit_batch_def
  set_add_def str_truthy_def and_before_def whitelist_updates_def whitelist_key_doc_def

text \<open>
  Claim C10. A record with the whitelist flag false whose \<open>expiresAt\<close> converts to exactly
  0 epoch milliseconds makes the expiry check return the number 0, which is falsy, so the
  record is classified as not expired; returned by the identity query, its key is in the
  key set of the refresh, for every clock value and so also when the epoch is in the past.
\<close>

theorem zero_epoch_not_expired:
  assumes "\<not> whitelisted d" and "expiresAt d = JTimestamp 0 \<or> expiresAt d = JNumber 0"
    and "(k, d) \<in> set (keys_where_userId s uid)" and "failing s = []"
  shows "isKeyExpired (Some d) now = JNum 0 \<and> \<not> truthy (isKeyExpired (Some d) now) \<and>
         (\<exists>ks s'. refreshUserKeys uid discordTag isBackground now s = (Inr ks, s') \<and> k \<in> set ks)"
proof -
  have z: "isKeyExpired (Some d) now = JNum 0" using assms(1,2) by (auto simp: and_before_def)
  then have n: "\<not> truthy (isKeyExpired (Some d) now)" by simp
  from refresh_result[OF assms(4)] obtain s1 s' where
    r: "refreshUserKeys uid discordTag isBackground now s =
          (Inr (fst (reconcile_acc uid discordTag isBackground now s)), s')" by blast
  have "k \<in> set (fst (reconcile_acc uid discordTag isBackground now s))"
    unfolding reconcile_acc_keys using assms(3) n by blast
  with r z n show ?thesis by blast
qed

theorem zero_epoch_not_expired_witness:
  "\<not> whitelisted (kd0\<lparr>expiresAt := JTimestamp 0\<rparr>) \<and>
   expiresAt (kd0\<lparr>expiresAt := JTimestamp 0\<rparr>) = JTimestamp 0 \<and>
   (''K0'', kd0\<lparr>expiresAt := JTimestamp 0\<rparr>) \<in> set (keys_where_userId s_zero ''u'') \<and>
   failing s_zero = [] \<and> (0::int) < 10 \<and>
   isKeyExpired (Some (kd0\<lparr>expiresAt := JTimestamp 0\<rparr>)) 10 = JNum 0 \<and>
   (\<exists>ks s'. refreshUserKeys ''u'' ''t'' False 10 s_zero = (Inr ks, s') \<and> ''K0'' \<in> set ks)"
proof -
  have 1: "\<not> whitelisted (kd0\<lparr>expiresAt := JTimestamp 0\<rparr>)" by (simp add: kd0_def)
  have 2: "expiresAt (kd0\<lparr>expiresAt := JTimestamp 0\<rparr>) = JTimestamp 0 \<or>
           expiresAt (kd0\<lparr>expiresAt := JTimestamp 0\<rparr>) = JNumber 0" by simp
  have 3: "(''K0'', kd0\<lparr>expiresAt := JTimestamp 0\<rparr>) \<in> set (keys_where_userId s_zero ''u'')"
    by (simp add: keys_where_userId_def s_zero_def s0_def kd0_def)
  have 4: "failing s_zero = []" by (simp add: s_zero_def s0_def)
  from zero_epoch_not_expired[OF 1 2 3 4, of 10 "''t''" False] 1 3 4 show ?thesis by simp
qed

text \<open>
  Claim C1, as stated, fails in its second half: a record with the whitelist flag false and
  an \<open>expiresAt\<close> in the past is in the key set when the identity's whitelist grant links
  its key, and also when its \<open>expiresAt\<close> is 0 epoch milliseconds.
\<close>

theorem expiry_classification_counterexample:
  "\<not> whitelisted (kd0\<lparr>expiresAt := JTimestamp 3\<rparr>) \<and>
   keys_coll s_linked = [(''K1'', kd0\<lparr>expiresAt := JTimestamp 3\<rparr>)] \<and> (3::int) < 10 \<and>
   fst (refreshUserKeys ''u'' ''t'' False 10 s_linked) = Inr [''K1''] \<and>
   \<not> whitelisted (kd0\<lparr>expiresAt := JTimestamp 0\<rparr>) \<and>
   keys_coll s_zero = [(''K0'', kd0\<lparr>expiresAt := JTimestamp 0\<rparr>)] \<and> (0::int) < 10 \<and>
   fst (refreshUserKeys ''u'' ''t'' False 10 s_zero) = Inr [''K0'']"
  by (simp add: s_linked_def s_zero_def eval_defs)

text \<open>
  Claim C1, amended. With the store answering: every record with the whitelist flag true
  that the identity query returns, or that an alias query returns when the fallback runs,
  is in the key set, whatever its \<open>expiresAt\<close>; a record with the flag false and a non-null
  \<open>expiresAt\<close> that converts to a non-zero number of epoch milliseconds in the past is not
  in the key set, unless the identity's whitelist grant links its key.
\<close>

theorem expiry_classification:
  assumes "failing s = []" and "distinct (map fst (keys_coll s))"
  shows "\<exists>ks s'. refreshUserKeys uid discordTag isBackground now s = (Inr ks, s') \<and>
     (\<forall>k d. (k, d) \<in> set (keys_where_userId s uid) \<and> whitelisted d \<longrightarrow> k \<in> set ks) \<and>
     (\<forall>k d. \<not> isBackground \<and>
            (\<forall>(k', d') \<in> set (keys_where_userId s uid). truthy (isKeyExpired (Some d') now)) \<and>
            (k, d) \<in> set (keys_where_usedByDiscord s discordTag) \<union>
                     set (keys_where_usedByDiscord s (username_of discordTag)) \<and>
            whitelisted d \<longrightarrow> k \<in> set ks) \<and>
     (\<forall>k d t. (k, d) \<in> set (keys_coll s) \<and> \<not> whitelisted d \<and>
              (expiresAt d = JTimestamp t \<or> expiresAt d = JNumber t) \<and> t \<noteq> 0 \<and> t < now \<and>
              (\<forall>w. whitelist_coll s uid = Some w \<longrightarrow> key w \<noteq> Some k) \<longrightarrow> k \<notin> set ks)"
proof -
  let ?ks = "fst (reconcile_acc uid discordTag isBackground now s)"
  from refresh_result[OF assms(1)] obtain s1 s' where
    r: "refreshUserKeys uid discordTag isBackground now s = (Inr ?ks, s')" by blast
  have a: "\<forall>k d. (k, d) \<in> set (keys_where_userId s uid) \<and> whitelisted d \<longrightarrow> k \<in> set ?ks"
  proof (intro allI impI, elim conjE)
    fix k d assume h: "(k, d) \<in> set (keys_where_userId s uid)" and w: "whitelisted d"
    from w have "\<not> truthy (isKeyExpired (Some d) now)" by (rule whitelisted_not_expired)
    with h show "k \<in> set ?ks" by (rule identity_key_in_result)
  qed
  have b: "\<forall>k d. \<not> isBackground \<and>
            (\<forall>(k', d') \<in> set (keys_where_userId s uid). truthy (isKeyExpired (Some d') now)) \<and>
            (k, d) \<in> set (keys_where_usedByDiscord s discordTag) \<union>
                     set (keys_where_usedByDiscord s (username_of discordTag)) \<and>
            whitelisted d \<longrightarrow> k \<in> set ?ks"
  proof (intro allI impI, elim conjE)
    fix k d assume nb: "\<not> isBackground"
      and e: "\<forall>(k', d') \<in> set (keys_where_userId s uid). truthy (isKeyExpired (Some d') now)"
      and q: "(k, d) \<in> set (keys_where_usedByDiscord s discordTag) \<union>
                     set (keys_where_usedByDiscord s (username_of discordTag))"
      and w: "whitelisted d"
    from w have "\<not> truthy (isKeyExpired (Some d) now)" by (rule whitelisted_not_expired)
    with e nb q show "k \<in> set ?ks" by (rule fallback_key_in_result)
  qed
  have c: "\<forall>k d t. (k, d) \<in> set (keys_coll s) \<and> \<not> whitelisted d \<and>
              (expiresAt d = JTimestamp t \<or> expiresAt d = JNumber t) \<and> t \<noteq> 0 \<and> t < now \<and>
              (\<forall>w. whitelist_coll s uid = Some w \<longrightarrow> key w \<noteq> Some k) \<longrightarrow> k \<notin> set ?ks"
  proof (intro allI impI, elim conjE)
    fix k d t assume kd: "(k, d) \<in> set (keys_coll s)" and nw: "\<not> whitelisted d"
      and ex: "expiresAt d = JTimestamp t \<or> expiresAt d = JNumber t"
      and t0: "t \<noteq> 0" and tl: "t < now"
      and wl: "\<forall>w. whitelist_coll s uid = Some w \<longrightarrow> key w \<noteq> Some k"
    have e: "truthy (isKeyExpired (Some d) now)"
      using nw ex t0 tl by (auto simp: and_before_def)
    show "k \<notin> set ?ks"
    proof
      assume "k \<in> set ?ks"
      from result_key_cases[OF this] show False
      proof
        assume "\<exists>d. (k, d) \<in> set (keys_coll s) \<and> \<not> truthy (isKeyExpired (Some d) now)"
        then obtain d' where d': "(k, d') \<in> set (keys_coll s)"
          and n: "\<not> truthy (isKeyExpired (Some d') now)" by blast
        from distinct_keys_same_doc[OF assms(2) kd d'] have "d' = d" .
        with n e show False by simp
      next
        assume "\<exists>w. whitelist_coll s uid = Some w \<and> key w = Some k"
        with wl show False by blast
      qed
    qed
  qed
  show ?thesis
    by (rule exI[of _ ?ks], rule exI[of _ s']) (intro conjI r a b c)
qed

theorem expiry_classification_witness:
  "failing s_mixed = [] \<and> distinct (map fst (keys_coll s_mixed)) \<and>
   keys_coll s_mixed = [(''KE'', kd0\<lparr>expiresAt := JTimestamp 3\<rparr>),
        (''KW'', kd0\<lparr>expiresAt := JTimestamp 3, whitelisted := True\<rparr>)] \<and>
   (\<exists>ks s'. refreshUserKeys ''u'' ''t'' False 10 s_mixed = (Inr ks, s') \<and>
      ''KW'' \<in> set ks \<and> ''KE'' \<notin> set ks)"
proof -
  have f: "failing s_mixed = []" by (simp add: s_mixed_def s0_def)
  have kc: "keys_coll s_mixed = [(''KE'', kd0\<lparr>expiresAt := JTimestamp 3\<rparr>),
        (''KW'', kd0\<lparr>expiresAt := JTimestamp 3, whitelisted := True\<rparr>)]"
    by (simp add: s_mixed_def s0_def)
  have d: "distinct (map fst (keys_coll s_mixed))" by (simp add: kc)
  have w: "(''KW'', kd0\<lparr>expiresAt := JTimestamp 3, whitelisted := True\<rparr>) \<in>
             set (keys_where_userId s_mixed ''u'') \<and>
           whitelisted (kd0\<lparr>expiresAt := JTimestamp 3, whitelisted := True\<rparr>)"
    by (simp add: keys_where_userId_def kc kd0_def)
  have e: "(''KE'', kd0\<lparr>expiresAt := JTimestamp 3\<rparr>) \<in> set (keys_coll s_mixed) \<and>
           \<not> whitelisted (kd0\<lparr>expiresAt := JTimestamp 3\<rparr>) \<and>
           (expiresAt (kd0\<lparr>expiresAt := JTimestamp 3\<rparr>) = JTimestamp 3 \<or>
            expiresAt (kd0\<lparr>expiresAt := JTimestamp 3\<rparr>) = JNumber 3) \<and> (3::int) \<noteq> 0 \<and> (3::int) < 10 \<and>
           (\<forall>w. whitelist_coll s_mixed ''u'' = Some w \<longrightarrow> key w \<noteq> Some ''KE'')"
    by (simp add: kc kd0_def) (simp add: s_mixed_def s0_def)
  from expiry_classification[OF f d, of "''u''" "''t''" False 10] obtain ks s' where
    r: "refreshUserKeys ''u'' ''t'' False 10 s_mixed = (Inr ks, s')"
    and a: "\<forall>k d. (k, d) \<in> set (keys_where_userId s_mixed ''u'') \<and> whitelisted d \<longrightarrow> k \<in> set ks"
    and c: "\<forall>k d t. (k, d) \<in> set (keys_coll s_mixed) \<and> \<not> whitelisted d \<and>
              (expiresAt d = JTimestamp t \<or> expiresAt d = JNumber t) \<and> t \<noteq> 0 \<and> t < 10 \<and>
              (\<forall>w. whitelist_coll s_mixed ''u'' = Some w \<longrightarrow> key w \<noteq> Some k) \<longrightarrow> k \<notin> set ks"
    by blast
  from a w have "''KW'' \<in> set ks" by blast
  moreover from c e have "''KE'' \<notin> set ks" by blast
  ultimately show ?thesis using f d kc r by blast
qed

section \<open>The alias fallback\<close>

text \<open>
  Claim C2, as stated, fails: when the identity query finds a live record, the alias queries
  are not sent, and a live record that only carries the alias is not returned.
\<close>

theorem alias_fallback_counterexample:
  "usedByDiscord (kd0\<lparr>userId := None\<rparr>) = Some ''t'' \<and>
   \<not> truthy (isKeyExpired (Some (kd0\<lparr>userId := None\<rparr>)) 10) \<and>
   keys_coll s_two = [(''K1'', kd0), (''K2'', kd0\<lparr>userId := None\<rparr>)] \<and>
   fst (refreshUserKeys ''u'' ''t'' False 10 s_two) = Inr [''K1''] \<and>
   ''K2'' \<notin> set [''K1''] \<and>
   requests (snd (refreshUserKeys ''u'' ''t'' False 10 s_two)) =
     [[KeysWhereUserId ''u'', WhitelistGet ''u'']]"
  by (simp add: s_two_def eval_defs)

lemma subset_same_doc:
  assumes "distinct (map fst xs)" and "set Q \<subseteq> set xs" and "(k, d) \<in> set xs"
  shows "\<forall>d'. (k, d') \<in> set Q \<longrightarrow> d' = d"
proof (intro allI impI)
  fix d' assume "(k, d') \<in> set Q"
  with assms(2) have "(k, d') \<in> set xs" by (rule subsetD)
  with assms(1,3) show "d' = d" by (rule distinct_keys_same_doc)
qed

lemma fallback_update_queued:
  assumes "distinct (map fst (keys_coll s))"
    and "(k, d) \<in> set (keys_where_usedByDiscord s tag) \<union>
                  set (keys_where_usedByDiscord s (username_of tag))"
    and "\<not> truthy (isKeyExpired (Some d) now)" and "\<not> str_truthy (userId d)"
    and "fst acc = []"
  shows "BatchUpdate k [SetUserId uid] \<in>
           set (snd (fold (process_fallback_doc uid now) (keys_where_usedByDiscord s (username_of tag))
                      (fold (process_fallback_doc uid now) (keys_where_usedByDiscord s tag) acc)))"
proof -
  let ?Q1 = "keys_where_usedByDiscord s tag"
  let ?Q2 = "keys_where_usedByDiscord s (username_of tag)"
  let ?a2 = "fold (process_fallback_doc uid now) ?Q1 acc"
  have inc: "(k, d) \<in> set (keys_coll s)"
    using assms(2) keys_where_usedByDiscord_subset[of s tag]
      keys_where_usedByDiscord_subset[of s "username_of tag"] by blast
  note u1 = subset_same_doc[OF assms(1) keys_where_usedByDiscord_subset inc, of tag]
  note u2 = subset_same_doc[OF assms(1) keys_where_usedByDiscord_subset inc, of "username_of tag"]
  show ?thesis
  proof (cases "(k, d) \<in> set ?Q1")
    case True
    have "k \<notin> set (fst acc)" using assms(5) by simp
    from fold_process_fallback_doc_update[OF True assms(3,4) this u1]
    have "BatchUpdate k [SetUserId uid] \<in> set (snd ?a2)" .
    then show ?thesis by (rule subsetD[OF fold_process_fallback_doc_ops])
  next
    case False
    with assms(2) have in2: "(k, d) \<in> set ?Q2" by simp
    have none: "\<not> (\<exists>d'. (k, d') \<in> set ?Q1 \<and> \<not> truthy (isKeyExpired (Some d') now))"
    proof
      assume "\<exists>d'. (k, d') \<in> set ?Q1 \<and> \<not> truthy (isKeyExpired (Some d') now)"
      then obtain d' where h: "(k, d') \<in> set ?Q1" by blast
      with u1 have "d' = d" by blast
      with h False show False by simp
    qed
    have "k \<notin> set (fst ?a2)"
      unfolding fold_process_fallback_doc_keys assms(5) using none by simp
    from fold_process_fallback_doc_update[OF in2 assms(3,4) this u2]
    show ?thesis .
  qed
qed

text \<open>
  Claim C2, amended. In a non-background refresh whose identity pass adds no key (every
  record the identity query returns is expired), with the store answering, every
  non-expired record among the at most five results of the alias query for the tag, or of
  the one for its user name, is in the returned key set, and an update binding \<open>userId\<close>
  is queued for it when its \<open>userId\<close> is missing or empty.
\<close>

theorem alias_fallback_when_identity_empty:
  assumes "failing s = []" and "distinct (map fst (keys_coll s))"
    and "\<forall>(k', d') \<in> set (keys_where_userId s uid). truthy (isKeyExpired (Some d') now)"
    and "(k, d) \<in> set (keys_where_usedByDiscord s discordTag) \<union>
                  set (keys_where_usedByDiscord s (username_of discordTag))"
    and "\<not> truthy (isKeyExpired (Some d) now)"
  shows "\<exists>ks ops s1 s'.
           reconcile uid discordTag False now s = (Inr (ks, ops), s1) \<and>
           refreshUserKeys uid discordTag False now s = (Inr ks, s') \<and>
           k \<in> set ks \<and>
           (\<not> str_truthy (userId d) \<longrightarrow> BatchUpdate k [SetUserId uid] \<in> set ops)"
proof -
  let ?acc = "reconcile_acc uid discordTag False now s"
  let ?a1 = "fold (process_userId_doc discordTag now) (keys_where_userId s uid) ([], [])"
  from refresh_result[OF assms(1)] obtain s1 s' where
    rc: "reconcile uid discordTag False now s = (Inr ?acc, s1)" and
    r: "refreshUserKeys uid discordTag False now s = (Inr (fst ?acc), s')" by blast
  have nb: "\<not> False" by simp
  have k: "k \<in> set (fst ?acc)"
    using assms(3) nb assms(4,5) by (rule fallback_key_in_result)
  have e1: "fst ?a1 = []" using assms(3) by (simp only: fold_process_userId_doc_Nil_iff)
  have fb: "fallback_acc uid discordTag False now s ?a1 =
      fold (process_fallback_doc uid now) (keys_where_usedByDiscord s (username_of discordTag))
        (fold (process_fallback_doc uid now) (keys_where_usedByDiscord s discordTag) ?a1)"
    unfolding fallback_acc_def using e1 by simp
  have u: "\<not> str_truthy (userId d) \<longrightarrow> BatchUpdate k [SetUserId uid] \<in> set (snd ?acc)"
  proof
    assume nu: "\<not> str_truthy (userId d)"
    from fallback_update_queued[OF assms(2,4,5) nu e1]
    have "BatchUpdate k [SetUserId uid] \<in> set (snd (fallback_acc uid discordTag False now s ?a1))"
      unfolding fb .
    then show "BatchUpdate k [SetUserId uid] \<in> set (snd ?acc)"
      unfolding reconcile_acc_def by (rule subsetD[OF whitelist_acc_ops])
  qed
  have rc': "reconcile uid discordTag False now s = (Inr (fst ?acc, snd ?acc), s1)"
    using rc by simp
  show ?thesis
    by (rule exI[of _ "fst ?acc"], rule exI[of _ "snd ?acc"], rule exI[of _ s1], rule exI[of _ s'])
       (intro conjI rc' r k u)
qed

theorem alias_fallback_when_identity_empty_witness:
  "failing s_alias = [] \<and> distinct (map fst (keys_coll s_alias)) \<and>
   keys_where_userId s_alias ''u'' = [] \<and>
   (''K2'', kd0\<lparr>userId := None\<rparr>) \<in> set (keys_where_usedByDiscord s_alias ''t'') \<and>
   \<not> truthy (isKeyExpired (Some (kd0\<lparr>userId := None\<rparr>)) 10) \<and>
   \<not> str_truthy (userId (kd0\<lparr>userId := None\<rparr>)) \<and>
   (\<exists>ks ops s1 s'.
      reconcile ''u'' ''t'' False 10 s_alias = (Inr (ks, ops), s1) \<and>
      refreshUserKeys ''u'' ''t'' False 10 s_alias = (Inr ks, s') \<and>
      ''K2'' \<in> set ks \<and> BatchUpdate ''K2'' [SetUserId ''u''] \<in> set ops)"
proof -
  have f: "failing s_alias = []" by (simp add: s_alias_def s0_def)
  have kc: "keys_coll s_alias = [(''K2'', kd0\<lparr>userId := None\<rparr>)]" by (simp add: s_alias_def s0_def)
  have d: "distinct (map fst (keys_coll s_alias))" by (simp add: kc)
  have i: "keys_where_userId s_alias ''u'' = []" by (simp add: keys_where_userId_def kc)
  then have i': "\<forall>(k', d') \<in> set (keys_where_userId s_alias ''u''). truthy (isKeyExpired (Some d') 10)"
    by simp
  have q: "(''K2'', kd0\<lparr>userId := None\<rparr>) \<in> set (keys_where_usedByDiscord s_alias ''t'')"
    by (simp add: keys_where_usedByDiscord_def kc kd0_def)
  then have q': "(''K2'', kd0\<lparr>userId := None\<rparr>) \<in> set (keys_where_usedByDiscord s_alias ''t'') \<union>
                  set (keys_where_usedByDiscord s_alias (username_of ''t''))" by simp
  have n: "\<not> truthy (isKeyExpired (Some (kd0\<lparr>userId := None\<rparr>)) 10)" by (simp add: kd0_def)
  have u: "\<not> str_truthy (userId (kd0\<lparr>userId := None\<rparr>))" by (simp add: str_truthy_def)
  from alias_fallback_when_identity_empty[OF f d i' q' n] u
  have "\<exists>ks ops s1 s'.
      reconcile ''u'' ''t'' False 10 s_alias = (Inr (ks, ops), s1) \<and>
      refreshUserKeys ''u'' ''t'' False 10 s_alias = (Inr ks, s') \<and>
      ''K2'' \<in> set ks \<and> BatchUpdate ''K2'' [SetUserId ''u''] \<in> set ops"
    by blast
  with f d i q n u show ?thesis by blast
qed

section \<open>The store after a refresh, and the whitelist repair\<close>

lemma fold_commit_batch_keys_coll:
  "keys_coll (fold (commit_batch []) bs st) = fold apply_write (concat bs) (keys_coll st)"
  by (induction bs arbitrary: st) (simp_all add: commit_batch_def)

lemma safeBatchCommit_store:
  assumes "failing s = []"
  shows "keys_coll (snd (safeBatchCommit ops s)) = fold apply_write ops (keys_coll s)"
proof (cases "ops = []")
  case True
  then show ?thesis by (simp add: safeBatchCommit_def)
next
  case False
  have "keys_coll (snd (safeBatchCommit ops s)) =
        fold apply_write (concat (make_batches ops)) (keys_coll s)"
    using False assms by (simp add: safeBatchCommit_def Let_def fold_commit_batch_keys_coll)
  then show ?thesis by (simp add: concat_make_batches)
qed

lemma safeBatchCommit_succeeds:
  assumes "failing s = []"
  shows "\<exists>n. fst (safeBatchCommit ops s) = Inr n"
  using assms by (simp add: safeBatchCommit_def Let_def)

lemma refresh_store:
  assumes "failing s = []"
  shows "keys_coll (snd (refreshUserKeys uid tag bg now s)) =
         fold apply_write (snd (reconcile_acc uid tag bg now s)) (keys_coll s)"
proof -
  let ?acc = "reconcile_acc uid tag bg now s"
  from refresh_result[OF assms] obtain s1 where
    rc: "reconcile uid tag bg now s = (Inr ?acc, s1)" by blast
  from reconcile_ok[OF rc] obtain rounds where
    s1: "s1 = s\<lparr>requests := requests s @ rounds\<rparr>" by (rule stage_okE)
  have f1: "failing s1 = []" using s1 assms by simp
  have k1: "keys_coll s1 = keys_coll s" using s1 by simp
  obtain ks ops where p: "?acc = (ks, ops)" by (cases ?acc) auto
  show ?thesis
  proof (cases "ops = []")
    case True
    then show ?thesis using rc p k1 by (simp add: refreshUserKeys_def)
  next
    case False
    obtain r2 s2 where c: "safeBatchCommit ops s1 = (r2, s2)"
      by (cases "safeBatchCommit ops s1") auto
    from safeBatchCommit_succeeds[OF f1, of ops] c obtain n where r2: "r2 = Inr n" by auto
    from safeBatchCommit_store[OF f1, of ops] c
    have k2: "keys_coll s2 = fold apply_write ops (keys_coll s)" by (simp add: k1)
    show ?thesis using rc p False c r2 k2 by (simp add: refreshUserKeys_def)
  qed
qed

lemma map_of_insort_key:
  "k \<notin> fst ` set xs \<Longrightarrow> map_of (insort_key fst (k, d) xs) k = Some d"
  by (induction xs) auto

lemma map_of_apply_BatchSet: "map_of (apply_write (BatchSet k d) coll) k = Some d"
proof -
  have "k \<notin> fst ` set (filter (\<lambda>(k', _). k' \<noteq> k) coll)" by auto
  then show ?thesis by (simp add: map_of_insort_key)
qed

lemma pass_keys_in_store:
  "set (fst (fallback_acc uid tag bg now s
          (fold (process_userId_doc tag now) (keys_where_userId s uid) ([], []))))
     \<subseteq> fst ` set (keys_coll s)"
proof
  fix k assume "k \<in> set (fst (fallback_acc uid tag bg now s
          (fold (process_userId_doc tag now) (keys_where_userId s uid) ([], []))))"
  then consider
    (a) d where "(k, d) \<in> set (keys_where_userId s uid)"
  | (b) d where "(k, d) \<in> set (keys_where_usedByDiscord s tag) \<union>
                            set (keys_where_usedByDiscord s (username_of tag))"
    unfolding fallback_acc_keys fold_process_userId_doc_keys
    by (auto split: if_splits simp del: isKeyExpired.simps)
  then show "k \<in> fst ` set (keys_coll s)"
  proof cases
    case a
    then have "(k, d) \<in> set (keys_coll s)" using keys_where_userId_subset by blast
    then show ?thesis by force
  next
    case b
    then have "(k, d) \<in> set (keys_coll s)" using keys_where_usedByDiscord_subset by blast
    then show ?thesis by force
  qed
qed

lemma whitelist_create_queued:
  assumes "whitelist_coll s uid = Some w" and "key w = Some k" and "k \<noteq> []"
    and "map_of (keys_coll s) k = None"
  shows "snd (reconcile_acc uid tag bg now s) =
           snd (fallback_acc uid tag bg now s
                  (fold (process_userId_doc tag now) (keys_where_userId s uid) ([], []))) @
           [BatchSet k (whitelist_key_doc uid tag now)]"
proof -
  have "k \<notin> fst ` set (keys_coll s)" using assms(4) by (simp add: map_of_eq_None_iff)
  then have "k \<notin> set (fst (fallback_acc uid tag bg now s
          (fold (process_userId_doc tag now) (keys_where_userId s uid) ([], []))))"
    using pass_keys_in_store by blast
  then show ?thesis using assms by (simp add: reconcile_acc_def whitelist_acc_def)
qed


text \<open>
  Claim C8. When the identity's whitelist grant links a key that has no document in the
  \<open>keys\<close> collection, one refresh with the store answering queues a \<open>set\<close> of a
  document under exactly that key with \<open>expiresAt\<close> null and the whitelist flag true,
  returns the key in its key set, and leaves that document in the store.
\<close>

theorem whitelist_self_repair:
  assumes "failing s = []" and "whitelist_coll s uid = Some w" and "key w = Some k"
    and "k \<noteq> []" and "map_of (keys_coll s) k = None"
  shows "\<exists>ks ops s1 s'.
           reconcile uid discordTag isBackground now s = (Inr (ks, ops), s1) \<and>
           refreshUserKeys uid discordTag isBackground now s = (Inr ks, s') \<and>
           BatchSet k (whitelist_key_doc uid discordTag now) \<in> set ops \<and>
           expiresAt (whitelist_key_doc uid discordTag now) = JNull \<and>
           whitelisted (whitelist_key_doc uid discordTag now) \<and>
           k \<in> set ks \<and>
           map_of (keys_coll s') k = Some (whitelist_key_doc uid discordTag now)"
proof -
  let ?acc = "reconcile_acc uid discordTag isBackground now s"
  let ?doc = "whitelist_key_doc uid discordTag now"
  from refresh_result[OF assms(1)] obtain s1 s' where
    rc: "reconcile uid discordTag isBackground now s = (Inr ?acc, s1)" and
    r: "refreshUserKeys uid discordTag isBackground now s = (Inr (fst ?acc), s')" by blast
  have rc': "reconcile uid discordTag isBackground now s = (Inr (fst ?acc, snd ?acc), s1)"
    using rc by simp
  note q = whitelist_create_queued[OF assms(2-5), of discordTag isBackground now]
  have o: "BatchSet k ?doc \<in> set (snd ?acc)" unfolding q by simp
  have e: "expiresAt ?doc = JNull" by (simp add: whitelist_key_doc_def)
  have wl: "whitelisted ?doc" by (simp add: whitelist_key_doc_def)
  have k: "k \<in> set (fst ?acc)" using assms(2,3,4) by (rule whitelist_key_in_result)
  have "keys_coll s' = fold apply_write (snd ?acc) (keys_coll s)"
    using refresh_store[OF assms(1), of uid discordTag isBackground now] r by simp
  then have m: "map_of (keys_coll s') k = Some ?doc"
    unfolding q by (simp add: map_of_apply_BatchSet del: apply_write.simps)
  show ?thesis
    by (rule exI[of _ "fst ?acc"], rule exI[of _ "snd ?acc"], rule exI[of _ s1], rule exI[of _ s'])
       (intro conjI rc' r o e wl k m)
qed

theorem whitelist_self_repair_witness:
  "failing s_grant = [] \<and>
   whitelist_coll s_grant ''u'' =
     Some \<lparr>wl_userId = ''u'', wl_discordTag = ''t'', key = Some ''KW'', addedBy = ''a''\<rparr> \<and>
   map_of (keys_coll s_grant) ''KW'' = None \<and>
   (\<exists>ks ops s1 s'.
      reconcile ''u'' ''t'' False 10 s_grant = (Inr (ks, ops), s1) \<and>
      refreshUserKeys ''u'' ''t'' False 10 s_grant = (Inr ks, s') \<and>
      BatchSet ''KW'' (whitelist_key_doc ''u'' ''t'' 10) \<in> set ops \<and>
      ''KW'' \<in> set ks \<and>
      map_of (keys_coll s') ''KW'' = Some (whitelist_key_doc ''u'' ''t'' 10))"
proof -
  have f: "failing s_grant = []" by (simp add: s_grant_def s0_def)
  have w: "whitelist_coll s_grant ''u'' =
     Some \<lparr>wl_userId = ''u'', wl_discordTag = ''t'', key = Some ''KW'', addedBy = ''a''\<rparr>"
    by (simp add: s_grant_def s0_def)
  have kk: "key \<lparr>wl_userId = ''u'', wl_discordTag = ''t'', key = Some ''KW'', addedBy = ''a''\<rparr> =
            Some ''KW''" by simp
  have ne: "''KW'' \<noteq> []" by simp
  have m: "map_of (keys_coll s_grant) ''KW'' = None" by (simp add: s_grant_def s0_def)
  from whitelist_self_repair[OF f w kk ne m, of "''t''" False 10]
  have "\<exists>ks ops s1 s'.
      reconcile ''u'' ''t'' False 10 s_grant = (Inr (ks, ops), s1) \<and>
      refreshUserKeys ''u'' ''t'' False 10 s_grant = (Inr ks, s') \<and>
      BatchSet ''KW'' (whitelist_key_doc ''u'' ''t'' 10) \<in> set ops \<and>
      ''KW'' \<in> set ks \<and>
      map_of (keys_coll s') ''KW'' = Some (whitelist_key_doc ''u'' ''t'' 10)"
    by blast
  with f w m show ?thesis by blast
qed

section \<open>Queued updates and the documents they touch\<close>

lemma fold_process_userId_doc_targets:
  "BatchUpdate k us \<in> set (snd (fold (process_userId_doc tag now) docs acc)) \<Longrightarrow>
   BatchUpdate k us \<in> set (snd acc) \<or> k \<in> fst ` set docs"
proof (induction docs arbitrary: acc)
  case Nil
  then show ?case by simp
next
  case (Cons doc docs)
  obtain k' d' where doc: "doc = (k', d')" by (cases doc) auto
  obtain ks ops where acc: "acc = (ks, ops)" by (cases acc) auto
  from Cons.prems have
    "BatchUpdate k us \<in> set (snd (fold (process_userId_doc tag now) docs
        (process_userId_doc tag now doc acc)))" by simp
  from Cons.IH[OF this] show ?case
  proof
    assume "BatchUpdate k us \<in> set (snd (process_userId_doc tag now doc acc))"
    then have "BatchUpdate k us \<in> set (snd acc) \<or> k = k'"
      unfolding doc acc by (auto split: if_splits simp del: isKeyExpired.simps)
    then show ?thesis unfolding doc by auto
  next
    assume "k \<in> fst ` set docs"
    then show ?thesis by simp
  qed
qed

lemma fold_process_fallback_doc_targets:
  "BatchUpdate k us \<in> set (snd (fold (process_fallback_doc uid now) docs acc)) \<Longrightarrow>
   BatchUpdate k us \<in> set (snd acc) \<or> k \<in> fst ` set docs"
proof (induction docs arbitrary: acc)
  case Nil
  then show ?case by simp
next
  case (Cons doc docs)
  obtain k' d' where doc: "doc = (k', d')" by (cases doc) auto
  obtain ks ops where acc: "acc = (ks, ops)" by (cases acc) auto
  from Cons.prems have
    "BatchUpdate k us \<in> set (snd (fold (process_fallback_doc uid now) docs
        (process_fallback_doc uid now doc acc)))" by simp
  from Cons.IH[OF this] show ?case
  proof
    assume "BatchUpdate k us \<in> set (snd (process_fallback_doc uid now doc acc))"
    then have "BatchUpdate k us \<in> set (snd acc) \<or> k = k'"
      unfolding doc acc by (auto split: if_splits simp del: isKeyExpired.simps)
    then show ?thesis unfolding doc by auto
  next
    assume "k \<in> fst ` set docs"
    then show ?thesis by simp
  qed
qed

lemma fst_image_mono: "set xs \<subseteq> set ys \<Longrightarrow> k \<in> fst ` set xs \<Longrightarrow> k \<in> fst ` set ys"
  by auto

text \<open>
  Every update a refresh queues is for a document of the \<open>keys\<close> collection it has read, so
  the store has no reason of its own to reject the commit.
\<close>

lemma queued_updates_target_store:
  assumes "BatchUpdate k us \<in> set (snd (reconcile_acc uid tag bg now s))"
  shows "k \<in> fst ` set (keys_coll s)"
proof -
  let ?a1 = "fold (process_userId_doc tag now) (keys_where_userId s uid) ([], [])"
  let ?a2 = "fallback_acc uid tag bg now s ?a1"
  have 1: "BatchUpdate k us \<in> set (snd ?a1) \<Longrightarrow> k \<in> fst ` set (keys_coll s)"
  proof -
    assume "BatchUpdate k us \<in> set (snd ?a1)"
    from fold_process_userId_doc_targets[OF this] have "k \<in> fst ` set (keys_where_userId s uid)"
      by simp
    with keys_where_userId_subset show ?thesis by (rule fst_image_mono)
  qed
  have 2: "BatchUpdate k us \<in> set (snd ?a2) \<Longrightarrow> k \<in> fst ` set (keys_coll s)"
  proof (cases "fst ?a1 = [] \<and> \<not> bg")
    case False
    assume "BatchUpdate k us \<in> set (snd ?a2)"
    with False have "BatchUpdate k us \<in> set (snd ?a1)" by (auto simp: fallback_acc_def)
    then show ?thesis by (rule 1)
  next
    case True
    let ?m = "fold (process_fallback_doc uid now) (keys_where_usedByDiscord s tag) ?a1"
    assume "BatchUpdate k us \<in> set (snd ?a2)"
    with True have "BatchUpdate k us \<in> set (snd (fold (process_fallback_doc uid now)
        (keys_where_usedByDiscord s (username_of tag)) ?m))"
      by (simp add: fallback_acc_def)
    from fold_process_fallback_doc_targets[OF this] show ?thesis
    proof
      assume "BatchUpdate k us \<in> set (snd ?m)"
      from fold_process_fallback_doc_targets[OF this] show ?thesis
      proof
        assume "BatchUpdate k us \<in> set (snd ?a1)"
        then show ?thesis by (rule 1)
      next
        assume "k \<in> fst ` set (keys_where_usedByDiscord s tag)"
        with keys_where_usedByDiscord_subset show ?thesis by (rule fst_image_mono)
      qed
    next
      assume "k \<in> fst ` set (keys_where_usedByDiscord s (username_of tag))"
      with keys_where_usedByDiscord_subset show ?thesis by (rule fst_image_mono)
    qed
  qed
  from assms have "BatchUpdate k us \<in> set (snd ?a2) \<or> (\<exists>d. map_of (keys_coll s) k = Some d)"
    unfolding reconcile_acc_def whitelist_acc_def
    by (auto split: option.splits if_splits)
  then show ?thesis
  proof
    assume "BatchUpdate k us \<in> set (snd ?a2)"
    then show ?thesis by (rule 2)
  next
    assume "\<exists>d. map_of (keys_coll s) k = Some d"
    then obtain d where "map_of (keys_coll s) k = Some d" by blast
    then have "(k, d) \<in> set (keys_coll s)" by (rule map_of_SomeD)
    then show ?thesis by force
  qed
qed

end
